theory Spec2Isabelle
  imports Complex_Main "HOL-Library.Word"
begin

section \<open>Configuration documents\<close>

text \<open>
  A configuration document is what \<^verbatim>\<open>json.loads\<close> returns: \<^verbatim>\<open>None\<close>, a bool, an int, a
  float, a str, a list or a dict with string keys. A Python dict keeps its keys in
  insertion order and holds each key once, so a dict is an association list; the
  predicate \<open>wf_json\<close> below says that the keys of every dict are distinct. A float is
  kept as its 64-bit pattern: the code only passes floats on. A character of a
  \<open>string\<close> stands for one code point of the Python str.
\<close>

datatype json =
    JNull
  | JBool bool
  | JInt int
  | JFloat "64 word"
  | JStr string
  | JList "json list"
  | JDict "(string \<times> json) list"

fun is_str :: "json \<Rightarrow> bool" where
  "is_str (JStr s) = True"
| "is_str _ = False"

fun is_dict :: "json \<Rightarrow> bool" where
  "is_dict (JDict items) = True"
| "is_dict _ = False"

fun is_list :: "json \<Rightarrow> bool" where
  "is_list (JList xs) = True"
| "is_list _ = False"

text \<open>The characters of a str value; only read behind an \<open>is_str\<close> test.\<close>

fun the_str :: "json \<Rightarrow> string" where
  "the_str (JStr s) = s"
| "the_str _ = []"

text \<open>
  \<^verbatim>\<open>result[k] = v\<close>: a key already present keeps its place and takes the new value, a
  new key goes to the end.
\<close>

fun dict_set :: "(string \<times> 'v) list \<Rightarrow> string \<Rightarrow> 'v \<Rightarrow> (string \<times> 'v) list" where
  "dict_set [] k v = [(k, v)]"
| "dict_set ((k', v') # d) k v =
     (if k' = k then (k', v) # d else (k', v') # dict_set d k v)"

text \<open>\<^verbatim>\<open>d.get(k, default)\<close>.\<close>

definition dict_get :: "(string \<times> 'v) list \<Rightarrow> string \<Rightarrow> 'v \<Rightarrow> 'v" where
  "dict_get d k dflt = (case map_of d k of None \<Rightarrow> dflt | Some v \<Rightarrow> v)"

text \<open>\<^verbatim>\<open>v.endswith(s)\<close>.\<close>

definition endswith :: "string \<Rightarrow> string \<Rightarrow> bool" where
  "endswith v s = (length s \<le> length v \<and> drop (length v - length s) v = s)"

fun wf_json :: "json \<Rightarrow> bool" where
  "wf_json (JDict items) =
     (distinct (map fst items) \<and> list_all (\<lambda>(k, v). wf_json v) items)"
| "wf_json (JList xs) = list_all wf_json xs"
| "wf_json _ = True"

subsection \<open>The secret classifier, masking and merging (server.py, lines 27-31 and 139-162)\<close>

definition SECRET_FIELDS :: "string set" where
  "SECRET_FIELDS =
     {''api_key'', ''token'', ''app_secret'', ''encrypt_key'',
      ''verification_token'', ''bot_token'', ''app_token'',
      ''channel_secret'', ''channel_access_token'', ''client_secret''}"

text \<open>Line 144: \<^verbatim>\<open>v[:8] + "***" if len(v) > 8 else "***"\<close>.\<close>

definition mask_value :: "string \<Rightarrow> string" where
  "mask_value v = (if length v > 8 then take 8 v @ ''***'' else ''***'')"

text \<open>
  \<^verbatim>\<open>mask_secrets(data, _path="")\<close>. The loop over \<^verbatim>\<open>data.items()\<close> is a left fold that
  stores into the result dict; \<^verbatim>\<open>isinstance(v, str) and v\<close> is \<open>is_str v\<close> and a
  non-empty string.
\<close>

fun mask_secrets :: "json \<Rightarrow> string \<Rightarrow> json" where
  "mask_secrets (JDict items) path =
     JDict (foldl (\<lambda>result (k, v).
        dict_set result k
          (if k \<in> SECRET_FIELDS \<and> is_str v \<and> the_str v \<noteq> []
           then JStr (mask_value (the_str v))
           else mask_secrets v (path @ ''.'' @ k))) [] items)"
| "mask_secrets (JList xs) path = JList (map (\<lambda>item. mask_secrets item path) xs)"
| "mask_secrets data path = data"

text \<open>\<^verbatim>\<open>merge_secrets(new_data, existing_data)\<close>.\<close>

fun merge_secrets :: "json \<Rightarrow> json \<Rightarrow> json" where
  "merge_secrets (JDict new_items) (JDict existing_items) =
     JDict (foldl (\<lambda>result (k, v).
        dict_set result k
          (if k \<in> SECRET_FIELDS \<and> is_str v
              \<and> (endswith (the_str v) ''***'' \<or> the_str v = [])
           then dict_get existing_items k (JStr [])
           else merge_secrets v (dict_get existing_items k (JDict [])))) [] new_items)"
| "merge_secrets new_data existing_data = new_data"

text \<open>\<^verbatim>\<open>default_config()\<close>, lines 91-136; 0.7 is the double \<open>0x3FE6666666666666\<close>.\<close>

definition default_config :: json where
  "default_config = JDict
    [(''agents'', JDict
       [(''defaults'', JDict
          [(''workspace'', JStr ''~/.picoclaw/workspace''),
           (''restrict_to_workspace'', JBool True),
           (''provider'', JStr []),
           (''model'', JStr ''glm-4.7''),
           (''max_tokens'', JInt 8192),
           (''temperature'', JFloat 0x3FE6666666666666),
           (''max_tool_iterations'', JInt 20)])]),
     (''channels'', JDict
       [(''telegram'', JDict [(''enabled'', JBool False), (''token'', JStr []),
           (''proxy'', JStr []), (''allow_from'', JList [])]),
        (''discord'', JDict [(''enabled'', JBool False), (''token'', JStr []),
           (''allow_from'', JList [])]),
        (''slack'', JDict [(''enabled'', JBool False), (''bot_token'', JStr []),
           (''app_token'', JStr []), (''allow_from'', JList [])]),
        (''whatsapp'', JDict [(''enabled'', JBool False),
           (''bridge_url'', JStr ''ws://localhost:3001''), (''allow_from'', JList [])]),
        (''feishu'', JDict [(''enabled'', JBool False), (''app_id'', JStr []),
           (''app_secret'', JStr []), (''encrypt_key'', JStr []),
           (''verification_token'', JStr []), (''allow_from'', JList [])]),
        (''dingtalk'', JDict [(''enabled'', JBool False), (''client_id'', JStr []),
           (''client_secret'', JStr []), (''allow_from'', JList [])]),
        (''qq'', JDict [(''enabled'', JBool False), (''app_id'', JStr []),
           (''app_secret'', JStr []), (''allow_from'', JList [])]),
        (''line'', JDict [(''enabled'', JBool False), (''channel_secret'', JStr []),
           (''channel_access_token'', JStr []), (''webhook_host'', JStr ''0.0.0.0''),
           (''webhook_port'', JInt 18791), (''webhook_path'', JStr ''/webhook/line''),
           (''allow_from'', JList [])]),
        (''maixcam'', JDict [(''enabled'', JBool False), (''host'', JStr ''0.0.0.0''),
           (''port'', JInt 18790), (''allow_from'', JList [])])]),
     (''providers'', JDict
       [(''anthropic'', JDict [(''api_key'', JStr [])]),
        (''openai'', JDict [(''api_key'', JStr []), (''api_base'', JStr [])]),
        (''openrouter'', JDict [(''api_key'', JStr [])]),
        (''deepseek'', JDict [(''api_key'', JStr [])]),
        (''groq'', JDict [(''api_key'', JStr [])]),
        (''gemini'', JDict [(''api_key'', JStr [])]),
        (''zhipu'', JDict [(''api_key'', JStr []), (''api_base'', JStr [])]),
        (''vllm'', JDict [(''api_key'', JStr []), (''api_base'', JStr [])]),
        (''nvidia'', JDict [(''api_key'', JStr []), (''api_base'', JStr [])]),
        (''moonshot'', JDict [(''api_key'', JStr [])])]),
     (''gateway'', JDict [(''host'', JStr ''0.0.0.0''), (''port'', JInt 18790)]),
     (''tools'', JDict
       [(''web'', JDict
          [(''brave'', JDict [(''enabled'', JBool False), (''api_key'', JStr []),
              (''max_results'', JInt 5)]),
           (''duckduckgo'', JDict [(''enabled'', JBool True), (''max_results'', JInt 5)])])]),
     (''heartbeat'', JDict [(''enabled'', JBool True), (''interval'', JInt 30)]),
     (''devices'', JDict [(''enabled'', JBool False), (''monitor_usb'', JBool False)])]"

subsection \<open>Addressing a node of a document\<close>

text \<open>
  A path is the sequence of dict keys and list indices that leads from the root of a
  document to one of its nodes, as in \<^verbatim>\<open>d["providers"]["anthropic"]["api_key"]\<close>;
  \<open>get_path\<close> is \<open>None\<close> where the Python expression would raise.
\<close>

datatype seg = Key string | Idx nat

fun get_path :: "json \<Rightarrow> seg list \<Rightarrow> json option" where
  "get_path d [] = Some d"
| "get_path (JDict items) (Key k # p) =
     (case map_of items k of None \<Rightarrow> None | Some v \<Rightarrow> get_path v p)"
| "get_path (JList xs) (Idx i # p) = (if i < length xs then get_path (xs ! i) p else None)"
| "get_path d (s # p) = None"

fun secret_key :: "seg \<Rightarrow> bool" where
  "secret_key (Key k) = (k \<in> SECRET_FIELDS)"
| "secret_key (Idx i) = False"

text \<open>
  The node \<open>v\<close> at path \<open>p\<close> is a secret leaf that masking rewrites: a dict entry under
  a secret key whose value is a non-empty string.
\<close>

definition masked_at :: "seg list \<Rightarrow> json \<Rightarrow> bool" where
  "masked_at p v = (p \<noteq> [] \<and> secret_key (last p) \<and> is_str v \<and> the_str v \<noteq> [])"

text \<open>
  The node \<open>v\<close> at path \<open>p\<close> is a secret leaf holding a placeholder: a dict entry under
  a secret key whose value is a string that is empty or ends with the mask marker.
\<close>

definition placeholder_at :: "seg list \<Rightarrow> json \<Rightarrow> bool" where
  "placeholder_at p v =
     (p \<noteq> [] \<and> secret_key (last p) \<and> is_str v
        \<and> (endswith (the_str v) ''***'' \<or> the_str v = []))"

text \<open>
  Along the keys \<open>ks\<close> the document holds a dict at every step it reaches: it is a
  dict, and each key of \<open>ks\<close> is either absent or leads to such a document again.
\<close>

fun dict_spine :: "json \<Rightarrow> string list \<Rightarrow> bool" where
  "dict_spine (JDict items) [] = True"
| "dict_spine (JDict items) (k # ks) =
     (case map_of items k of None \<Rightarrow> True | Some v \<Rightarrow> dict_spine v ks)"
| "dict_spine d ks = False"

text \<open>No dict entry of the document, at any depth, is one that masking rewrites.\<close>

fun secret_free :: "json \<Rightarrow> bool" where
  "secret_free (JDict items) =
     list_all (\<lambda>(k, v). \<not> (k \<in> SECRET_FIELDS \<and> is_str v \<and> the_str v \<noteq> [])
                          \<and> secret_free v) items"
| "secret_free (JList xs) = list_all secret_free xs"
| "secret_free d = True"

text \<open>No list of the document, reached from the root through dicts, holds such an entry.\<close>

fun lists_secret_free :: "json \<Rightarrow> bool" where
  "lists_secret_free (JDict items) = list_all (\<lambda>(k, v). lists_secret_free v) items"
| "lists_secret_free (JList xs) = list_all secret_free xs"
| "lists_secret_free d = True"

section \<open>The gateway supervisor (server.py, lines 165-238)\<close>

text \<open>
  \<^verbatim>\<open>deque(maxlen=n)\<close>: \<open>append\<close> adds on the right and, when the deque is then longer than
  \<open>maxlen\<close>, drops the leftmost element.
\<close>

record 'a deque =
  elems :: "'a list"
  maxlen :: nat

definition deque_append :: "'a deque \<Rightarrow> 'a \<Rightarrow> 'a deque" where
  "deque_append d x =
     (let xs = elems d @ [x] in d\<lparr>elems := (if length xs > maxlen d then tl xs else xs)\<rparr>)"

text \<open>\<^verbatim>\<open>str(n)\<close> for an int, as the f-string of line 224 formats the exit code.\<close>

fun str_nat :: "nat \<Rightarrow> string" where
  "str_nat n = (if n < 10 then [''0123456789'' ! n]
                else str_nat (n div 10) @ [''0123456789'' ! (n mod 10)])"

definition str_int :: "int \<Rightarrow> string" where
  "str_int i = (if i < 0 then CHR ''-'' # str_nat (nat (- i)) else str_nat (nat i))"

text \<open>
  \<^verbatim>\<open>int(x)\<close> for a float truncates towards zero. Times are real numbers here: the
  rounding of floating point is not modelled, and only \<open>uptime\<close> depends on it.
\<close>

definition py_int :: "real \<Rightarrow> int" where
  "py_int x = (if x < 0 then \<lceil>x\<rceil> else \<lfloor>x\<rfloor>)"

text \<open>
  The fields of \<^verbatim>\<open>GatewayManager\<close>. A \<^verbatim>\<open>Process\<close> object is named by a handle, its
  position in the list of the children created so far; \<open>read_tasks\<close> is the length of
  \<^verbatim>\<open>self._read_tasks\<close>.
\<close>

record manager =
  process :: "nat option"
  state :: string
  logs :: "string deque"
  start_time :: "real option"
  restart_count :: int
  read_tasks :: nat

text \<open>
  What the coroutines of the supervisor act on besides its own fields: the children
  created so far (each with the pid of its \<^verbatim>\<open>Process\<close> object), the \<^verbatim>\<open>returncode\<close> of those
  that have exited, the signals sent by \<^verbatim>\<open>terminate()\<close> and \<^verbatim>\<open>kill()\<close>, and the tasks of the
  event loop, each at the \<^verbatim>\<open>await\<close> where it is suspended.
\<close>

datatype signal = SIGTERM | SIGKILL

text \<open>
  Where a task is suspended: \<open>Spawning\<close> in \<^verbatim>\<open>create_subprocess_exec\<close> (line 179);
  \<open>Waiting h r\<close> in \<^verbatim>\<open>wait_for(self.process.wait(), timeout=10)\<close> on the process \<open>h\<close>
  (line 199); \<open>Killing h r\<close> in \<^verbatim>\<open>self.process.wait()\<close> after \<^verbatim>\<open>kill()\<close> (line 202);
  \<open>Created\<close> is a drain task made by \<^verbatim>\<open>create_task(self._read_output())\<close> that has not
  run yet; \<open>Reading h\<close> is in \<^verbatim>\<open>readline()\<close> on the output of \<open>h\<close> (line 214). The flag
  \<open>r\<close> says that the \<^verbatim>\<open>stop()\<close> was called by \<^verbatim>\<open>restart()\<close>, which goes on when it returns.
\<close>

datatype task =
    Spawning
  | Waiting nat bool
  | Killing nat bool
  | Created
  | Reading nat
  | Finished

record world = manager +
  children :: "nat list"
  returncodes :: "(nat \<times> int) list"
  signals :: "(nat \<times> signal) list"
  tasks :: "task list"

text \<open>\<^verbatim>\<open>GatewayManager.__init__\<close>, before any child exists.\<close>

definition init :: world where
  "init = \<lparr>process = None, state = ''stopped'', logs = \<lparr>elems = [], maxlen = 500\<rparr>,
     start_time = None, restart_count = 0, read_tasks = 0,
     children = [], returncodes = [], signals = [], tasks = []\<rparr>"

definition returncode :: "world \<Rightarrow> nat \<Rightarrow> int option" where
  "returncode w h = map_of (returncodes w) h"

text \<open>\<^verbatim>\<open>self.process and self.process.returncode is None\<close>.\<close>

definition live :: "world \<Rightarrow> bool" where
  "live w = (case process w of None \<Rightarrow> False | Some h \<Rightarrow> returncode w h = None)"

text \<open>The child \<open>h\<close> exits with code \<open>rc\<close>, and asyncio records it in \<^verbatim>\<open>returncode\<close>.\<close>

definition child_exit :: "nat \<Rightarrow> int \<Rightarrow> world \<Rightarrow> world" where
  "child_exit h rc w = w\<lparr>returncodes := (h, rc) # returncodes w\<rparr>"

subsection \<open>The coroutines, cut at their await points\<close>

text \<open>
  What \<^verbatim>\<open>create_subprocess_exec\<close> does: it returns a new \<^verbatim>\<open>Process\<close> with a pid, and
  \<^verbatim>\<open>time.time()\<close> is read next; or it raises an exception with a message.
\<close>

datatype spawn_result = Spawned nat real | SpawnError string

text \<open>\<^verbatim>\<open>start()\<close>, lines 175-177, up to the await.\<close>

definition start_call :: "world \<Rightarrow> world \<times> task" where
  "start_call w = (if live w then (w, Finished) else (w\<lparr>state := ''starting''\<rparr>, Spawning))"

text \<open>\<^verbatim>\<open>start()\<close>, lines 179-190, from the await on.\<close>

fun start_resume :: "spawn_result \<Rightarrow> world \<Rightarrow> world" where
  "start_resume (Spawned pid now) w =
     w\<lparr>process := Some (length (children w)), state := ''running'', start_time := Some now,
       read_tasks := read_tasks w + 1,
       children := children w @ [pid], tasks := tasks w @ [Created]\<rparr>"
| "start_resume (SpawnError e) w =
     w\<lparr>state := ''error'', logs := deque_append (logs w) (''Failed to start gateway: '' @ e)\<rparr>"

text \<open>
  What follows the return of \<^verbatim>\<open>stop()\<close>: nothing for a call of \<^verbatim>\<open>stop()\<close>; lines 208-209
  of \<^verbatim>\<open>restart()\<close> otherwise.
\<close>

definition after_stop :: "bool \<Rightarrow> world \<Rightarrow> world \<times> task" where
  "after_stop r w =
     (if r then start_call (w\<lparr>restart_count := restart_count w + 1\<rparr>) else (w, Finished))"

text \<open>\<^verbatim>\<open>stop()\<close>, lines 193-199, up to the first await.\<close>

definition stop_call :: "bool \<Rightarrow> world \<Rightarrow> world \<times> task" where
  "stop_call r w =
     (case process w of
        None \<Rightarrow> after_stop r (w\<lparr>state := ''stopped''\<rparr>)
      | Some h \<Rightarrow>
          if returncode w h \<noteq> None then after_stop r (w\<lparr>state := ''stopped''\<rparr>)
          else (w\<lparr>state := ''stopping'', signals := signals w @ [(h, SIGTERM)]\<rparr>, Waiting h r))"

text \<open>\<^verbatim>\<open>stop()\<close>, lines 200-202: the wait timed out.\<close>

definition stop_timeout :: "bool \<Rightarrow> world \<Rightarrow> world \<times> task" where
  "stop_timeout r w =
     (case process w of
        None \<Rightarrow> (w, Finished)
      | Some h \<Rightarrow> (w\<lparr>signals := signals w @ [(h, SIGKILL)]\<rparr>, Killing h r))"

text \<open>\<^verbatim>\<open>stop()\<close>, lines 203-204: the awaited process has exited.\<close>

definition stop_finish :: "bool \<Rightarrow> world \<Rightarrow> world \<times> task" where
  "stop_finish r w = after_stop r (w\<lparr>state := ''stopped'', start_time := None\<rparr>)"

text \<open>\<^verbatim>\<open>_read_output()\<close>, lines 222-224, after the loop.\<close>

definition read_exit :: "world \<Rightarrow> world \<times> task" where
  "read_exit w =
     (case process w of
        None \<Rightarrow> (w, Finished)
      | Some h \<Rightarrow>
          (case returncode w h of
             None \<Rightarrow> (w, Finished)
           | Some rc \<Rightarrow>
               if state w = ''running''
               then (w\<lparr>state := ''error'',
                       logs := deque_append (logs w) (''Gateway exited with code '' @ str_int rc)\<rparr>,
                     Finished)
               else (w, Finished)))"

text \<open>\<^verbatim>\<open>_read_output()\<close>, lines 213-214: the loop test and the next \<^verbatim>\<open>readline()\<close>.\<close>

definition read_loop :: "world \<Rightarrow> world \<times> task" where
  "read_loop w = (case process w of None \<Rightarrow> read_exit w | Some h \<Rightarrow> (w, Reading h))"

text \<open>
  \<^verbatim>\<open>_read_output()\<close>, lines 215-219, for a line that is not empty; \<open>cleaned\<close> is the line
  decoded, stripped on the right and freed of its ANSI colour sequences.
\<close>

definition read_line :: "string \<Rightarrow> world \<Rightarrow> world \<times> task" where
  "read_line cleaned w = read_loop (w\<lparr>logs := deque_append (logs w) cleaned\<rparr>)"

subsection \<open>A call that runs to its end with no other task in between\<close>

text \<open>
  How the child answers \<^verbatim>\<open>stop()\<close>: it exits with a code within the timeout, or only
  after \<^verbatim>\<open>kill()\<close>.
\<close>

datatype stop_result = InTime int | Killed int

definition start :: "spawn_result \<Rightarrow> world \<Rightarrow> world" where
  "start sp w = (case start_call w of (w1, Spawning) \<Rightarrow> start_resume sp w1 | (w1, t) \<Rightarrow> w1)"

definition stop :: "stop_result \<Rightarrow> world \<Rightarrow> world" where
  "stop sr w =
     (case stop_call False w of
        (w1, Waiting h r) \<Rightarrow>
          (case sr of
             InTime rc \<Rightarrow> fst (stop_finish r (child_exit h rc w1))
           | Killed rc \<Rightarrow>
               (case stop_timeout r w1 of
                  (w2, Killing h' r') \<Rightarrow> fst (stop_finish r' (child_exit h' rc w2))
                | (w2, t) \<Rightarrow> w2))
      | (w1, t) \<Rightarrow> w1)"

text \<open>\<^verbatim>\<open>restart()\<close>, lines 206-209.\<close>

definition restart :: "stop_result \<Rightarrow> spawn_result \<Rightarrow> world \<Rightarrow> world" where
  "restart sr sp w =
     (let w1 = stop sr w in start sp (w1\<lparr>restart_count := restart_count w1 + 1\<rparr>))"

text \<open>\<^verbatim>\<open>get_status()\<close>, lines 226-238, called when \<^verbatim>\<open>time.time()\<close> is \<open>now\<close>.\<close>

record status =
  st_state :: string
  st_pid :: "nat option"
  st_uptime :: "int option"
  st_restart_count :: int

definition get_status :: "real \<Rightarrow> world \<Rightarrow> status" where
  "get_status now w =
     \<lparr>st_state = state w,
      st_pid = (case process w of
                  None \<Rightarrow> None
                | Some h \<Rightarrow> if returncode w h = None then Some (children w ! h) else None),
      st_uptime = (case start_time w of
                     None \<Rightarrow> None
                   | Some t \<Rightarrow> if t \<noteq> 0 \<and> state w = ''running''
                               then Some (py_int (now - t)) else None),
      st_restart_count = restart_count w\<rparr>"

text \<open>The log snapshot of \<^verbatim>\<open>api_logs\<close>, line 326: \<^verbatim>\<open>list(gateway.logs)\<close>.\<close>

definition api_logs :: "world \<Rightarrow> string list" where
  "api_logs w = elems (logs w)"

subsection \<open>Tasks on one event loop\<close>

text \<open>
  The request handlers run every call as a task of its own
  (\<^verbatim>\<open>asyncio.create_task(gateway.start())\<close>, lines 333, 341, 349). A task runs alone from
  one await to the next; at an await any other task may run. An event is one such
  stretch: a call that begins, a task \<open>i\<close> that resumes with what it awaited, a
  child that exits, or a task that is cancelled while suspended.
\<close>

datatype op = Start | Stop | Restart

datatype event =
    Call op
  | SpawnReturns nat nat real
  | SpawnRaises nat string
  | WaitReturns nat
  | WaitTimesOut nat
  | Runs nat
  | ReadsLine nat string
  | ReadsEof nat
  | Exits nat int
  | Cancelled nat

definition new_task :: "world \<times> task \<Rightarrow> world" where
  "new_task r = (fst r)\<lparr>tasks := tasks (fst r) @ [snd r]\<rparr>"

definition set_task :: "nat \<Rightarrow> world \<times> task \<Rightarrow> world" where
  "set_task i r = (fst r)\<lparr>tasks := (tasks (fst r))[i := snd r]\<rparr>"

definition task_at :: "world \<Rightarrow> nat \<Rightarrow> task" where
  "task_at w i = (if i < length (tasks w) then tasks w ! i else Finished)"

text \<open>One event; \<open>None\<close> when it cannot happen in this state.\<close>

fun step :: "world \<Rightarrow> event \<Rightarrow> world option" where
  "step w (Call Start) = Some (new_task (start_call w))"
| "step w (Call Stop) = Some (new_task (stop_call False w))"
| "step w (Call Restart) = Some (new_task (stop_call True w))"
| "step w (SpawnReturns i pid now) =
     (case task_at w i of
        Spawning \<Rightarrow> Some (set_task i (start_resume (Spawned pid now) w, Finished))
      | _ \<Rightarrow> None)"
| "step w (SpawnRaises i e) =
     (case task_at w i of
        Spawning \<Rightarrow> Some (set_task i (start_resume (SpawnError e) w, Finished))
      | _ \<Rightarrow> None)"
| "step w (WaitReturns i) =
     (case task_at w i of
        Waiting h r \<Rightarrow>
          if returncode w h \<noteq> None then Some (set_task i (stop_finish r w)) else None
      | Killing h r \<Rightarrow>
          if returncode w h \<noteq> None then Some (set_task i (stop_finish r w)) else None
      | _ \<Rightarrow> None)"
| "step w (WaitTimesOut i) =
     (case task_at w i of
        Waiting h r \<Rightarrow> Some (set_task i (stop_timeout r w))
      | _ \<Rightarrow> None)"
| "step w (Runs i) =
     (case task_at w i of Created \<Rightarrow> Some (set_task i (read_loop w)) | _ \<Rightarrow> None)"
| "step w (ReadsLine i cleaned) =
     (case task_at w i of Reading h \<Rightarrow> Some (set_task i (read_line cleaned w)) | _ \<Rightarrow> None)"
| "step w (ReadsEof i) =
     (case task_at w i of Reading h \<Rightarrow> Some (set_task i (read_exit w)) | _ \<Rightarrow> None)"
| "step w (Exits h rc) =
     (if h < length (children w) \<and> returncode w h = None
      then Some (child_exit h rc w) else None)"
| "step w (Cancelled i) =
     (if i < length (tasks w) then Some (w\<lparr>tasks := (tasks w)[i := Finished]\<rparr>) else None)"

fun run :: "world \<Rightarrow> event list \<Rightarrow> world option" where
  "run w [] = Some w"
| "run w (e # es) = (case step w e of None \<Rightarrow> None | Some w' \<Rightarrow> run w' es)"

text \<open>
  A call that no other task interrupts, as the events of its task: the call, the exit
  of the child it stops (after the timeout and \<^verbatim>\<open>kill()\<close> when the child outlasts it),
  the return of the wait, the return of the spawn. \<open>untasked\<close> forgets the list of tasks,
  as the functions \<open>start\<close>, \<open>stop\<close> and \<open>restart\<close> above keep no task of their own.
\<close>

definition spawn_event :: "nat \<Rightarrow> spawn_result \<Rightarrow> event" where
  "spawn_event i sp =
     (case sp of Spawned pid now \<Rightarrow> SpawnReturns i pid now | SpawnError e \<Rightarrow> SpawnRaises i e)"

definition start_events :: "world \<Rightarrow> spawn_result \<Rightarrow> event list" where
  "start_events w sp =
     Call Start # (if live w then [] else [spawn_event (length (tasks w)) sp])"

definition stop_events :: "world \<Rightarrow> stop_result \<Rightarrow> event list" where
  "stop_events w sr =
     (case process w of
        None \<Rightarrow> []
      | Some h \<Rightarrow>
          if returncode w h \<noteq> None then []
          else (case sr of
                  InTime rc \<Rightarrow> [Exits h rc, WaitReturns (length (tasks w))]
                | Killed rc \<Rightarrow>
                    [WaitTimesOut (length (tasks w)), Exits h rc, WaitReturns (length (tasks w))]))"

definition restart_events :: "world \<Rightarrow> stop_result \<Rightarrow> spawn_result \<Rightarrow> event list" where
  "restart_events w sr sp =
     Call Restart # stop_events w sr @ [spawn_event (length (tasks w)) sp]"

definition untasked :: "world \<Rightarrow> world" where
  "untasked w = w\<lparr>tasks := []\<rparr>"

text \<open>The recorded process is one of the children created.\<close>

definition handle_ok :: "world \<Rightarrow> bool" where
  "handle_ok w = (case process w of None \<Rightarrow> True | Some h \<Rightarrow> h < length (children w))"

text \<open>
  Callers that serialize their calls themselves: a task is a lifecycle task while it is
  suspended inside \<^verbatim>\<open>start()\<close>, \<^verbatim>\<open>stop()\<close> or \<^verbatim>\<open>restart()\<close>; the supervisor is quiet when
  no such task is suspended; in a serial run a call begins only when the supervisor
  is quiet. Drain tasks, exits of children and cancellations happen at any time.
\<close>

fun lifecycle :: "task \<Rightarrow> bool" where
  "lifecycle Spawning = True"
| "lifecycle (Waiting h r) = True"
| "lifecycle (Killing h r) = True"
| "lifecycle t = False"

definition quiet :: "world \<Rightarrow> bool" where
  "quiet w = list_all (\<lambda>t. \<not> lifecycle t) (tasks w)"

fun is_call :: "event \<Rightarrow> bool" where
  "is_call (Call c) = True"
| "is_call e = False"

definition serial_step :: "world \<Rightarrow> event \<Rightarrow> world option" where
  "serial_step w e = (if is_call e \<and> \<not> quiet w then None else step w e)"

fun serial_run :: "world \<Rightarrow> event list \<Rightarrow> world option" where
  "serial_run w [] = Some w"
| "serial_run w (e # es) =
     (case serial_step w e of None \<Rightarrow> None | Some w' \<Rightarrow> serial_run w' es)"

text \<open>The handles of the children that have not exited.\<close>

definition live_children :: "world \<Rightarrow> nat list" where
  "live_children w = filter (\<lambda>h. returncode w h = None) [0..<length (children w)]"

section \<open>Auxiliary notions of the proofs\<close>

text \<open>A dict rebuilt entry by entry: the keys stay, each value is recomputed.\<close>

definition map_entries :: "(string \<Rightarrow> 'a \<Rightarrow> 'b) \<Rightarrow> (string \<times> 'a) list \<Rightarrow> (string \<times> 'b) list" where
  "map_entries f items = map (\<lambda>(k, v). (k, f k v)) items"

definition mask_entry :: "string \<Rightarrow> json \<Rightarrow> string \<Rightarrow> json" where
  "mask_entry k v path =
     (if k \<in> SECRET_FIELDS \<and> is_str v \<and> the_str v \<noteq> []
      then JStr (mask_value (the_str v)) else mask_secrets v (path @ ''.'' @ k))"

definition merge_entry :: "(string \<times> json) list \<Rightarrow> string \<Rightarrow> json \<Rightarrow> json" where
  "merge_entry existing_items k v =
     (if k \<in> SECRET_FIELDS \<and> is_str v \<and> (endswith (the_str v) ''***'' \<or> the_str v = [])
      then dict_get existing_items k (JStr [])
      else merge_secrets v (dict_get existing_items k (JDict [])))"

text \<open>The log buffer is the one made by \<^verbatim>\<open>__init__\<close> and is not over its length.\<close>

definition logs_ok :: "world \<Rightarrow> bool" where
  "logs_ok w = (maxlen (logs w) = 500 \<and> length (elems (logs w)) \<le> 500)"

text \<open>
  The invariant of serial runs: a live child is the recorded process, at most one
  lifecycle task is suspended, and while a spawn is awaited every child has exited.
  \<open>same_core\<close> relates two states that differ only in fields the invariant does not read.
\<close>

definition all_exited :: "world \<Rightarrow> bool" where
  "all_exited w = (\<forall>h<length (children w). returncode w h \<noteq> None)"

definition one_pending :: "task list \<Rightarrow> bool" where
  "one_pending ts =
     (\<forall>i j. i < length ts \<and> j < length ts \<and> lifecycle (ts ! i) \<and> lifecycle (ts ! j) \<longrightarrow> i = j)"

definition serial_inv :: "world \<Rightarrow> bool" where
  "serial_inv w =
     ((\<forall>h<length (children w). returncode w h = None \<longrightarrow> process w = Some h)
      \<and> one_pending (tasks w)
      \<and> (Spawning \<in> set (tasks w) \<longrightarrow> all_exited w))"

definition same_core :: "world \<Rightarrow> world \<Rightarrow> bool" where
  "same_core w w1 =
     (process w1 = process w \<and> children w1 = children w
      \<and> returncodes w1 = returncodes w \<and> tasks w1 = tasks w)"

subsection \<open>Sample documents\<close>

definition real_key :: string where
  "real_key = ''sk-real-value-123456''"

definition api_key_path :: "seg list" where
  "api_key_path = [Key ''providers'', Key ''anthropic'', Key ''api_key'']"

definition submitted_key :: json where
  "submitted_key = JDict [(''providers'', JDict [(''anthropic'', JDict [(''api_key'', JStr real_key)])])]"

definition masked_submission :: json where
  "masked_submission = JDict [(''providers'', JDict [(''anthropic'', JDict [(''api_key'', JStr ''***'')])])]"

definition stored_null_provider :: json where
  "stored_null_provider = JDict [(''providers'', JDict [(''anthropic'', JNull)])]"

definition stored_model_list :: json where
  "stored_model_list = JDict [(''model_list'', JList [JDict [(''api_key'', JStr real_key)]])]"

definition stored_sample :: json where
  "stored_sample = JDict
     [(''providers'', JDict
        [(''anthropic'', JDict [(''api_key'', JStr real_key)]),
         (''openai'', JDict [(''api_key'', JStr ''short''), (''api_base'', JStr ''https://x'')])]),
      (''channels'', JDict
        [(''telegram'', JDict [(''enabled'', JBool True), (''token'', JStr []),
            (''allow_from'', JList [JStr ''alice'', JStr ''bob''])])]),
      (''token'', JInt 7)]"

definition masked_sample :: json where
  "masked_sample = JDict
     [(''providers'', JDict
        [(''anthropic'', JDict [(''api_key'', JStr ''sk-real-***'')]),
         (''openai'', JDict [(''api_key'', JStr ''***''), (''api_base'', JStr ''https://x'')])]),
      (''channels'', JDict
        [(''telegram'', JDict [(''enabled'', JBool True), (''token'', JStr []),
            (''allow_from'', JList [JStr ''alice'', JStr ''bob''])])]),
      (''token'', JInt 7)]"

definition partial_submission :: json where
  "partial_submission =
     JDict [(''providers'', JDict [(''anthropic'', JDict [(''api_key'', JStr ''sk-real-***'')])])]"

definition nested_incoming :: json where
  "nested_incoming = JDict [(''token'', JDict [(''api_key'', JStr ''***'')])]"

definition nested_existing :: json where
  "nested_existing = JDict [(''token'', JDict [(''api_key'', JStr real_key)])]"

definition numeric_incoming :: json where
  "numeric_incoming = JDict [(''api_key'', JInt 5)]"

definition flat_existing :: json where
  "flat_existing = JDict [(''api_key'', JStr real_key)]"

section \<open>Masking and merging\<close>

declare mask_secrets.simps(1) [simp del]
declare merge_secrets.simps(1) [simp del]

lemma dict_set_fresh: "k \<notin> fst ` set d \<Longrightarrow> dict_set d k v = d @ [(k, v)]"
  by (induction d) auto

lemma foldl_dict_set_append:
  "distinct (map fst acc @ map fst items) \<Longrightarrow>
   foldl (\<lambda>result (k, v). dict_set result k (f k v)) acc items
     = acc @ map (\<lambda>(k, v). (k, f k v)) items"
proof (induction items arbitrary: acc)
  case Nil
  then show ?case by simp
next
  case (Cons kv items)
  obtain k v where kv: "kv = (k, v)" by (cases kv)
  from Cons.prems kv have fresh: "k \<notin> fst ` set acc" by auto
  from Cons.prems kv have "distinct (map fst (acc @ [(k, f k v)]) @ map fst items)" by auto
  from Cons.IH[OF this] show ?case
    by (simp add: kv dict_set_fresh[OF fresh])
qed

lemma foldl_dict_set_map:
  "distinct (map fst items) \<Longrightarrow>
   foldl (\<lambda>result (k, v). dict_set result k (f k v)) [] items
     = map (\<lambda>(k, v). (k, f k v)) items"
  using foldl_dict_set_append[of "[]" items f] by simp

lemma foldl_dict_set_entries:
  "distinct (map fst items) \<Longrightarrow>
   foldl (\<lambda>result (k, v). dict_set result k (f k v)) [] items = map_entries f items"
  unfolding map_entries_def by (rule foldl_dict_set_map)

lemma map_of_map_entries [simp]:
  "map_of (map_entries f items) k = map_option (f k) (map_of items k)"
  unfolding map_entries_def by (induction items) auto

lemma map_fst_map_entries [simp]: "map fst (map_entries f items) = map fst items"
  unfolding map_entries_def by (induction items) auto

lemma set_map_entries: "set (map_entries f items) = (\<lambda>(k, v). (k, f k v)) ` set items"
  unfolding map_entries_def by simp

lemma map_entries_id:
  "(\<And>k v. (k, v) \<in> set items \<Longrightarrow> f k v = v) \<Longrightarrow> map_entries f items = items"
  unfolding map_entries_def by (rule map_idI) auto

lemma map_entries_cong:
  "(\<And>k v. (k, v) \<in> set items \<Longrightarrow> f k v = g k v) \<Longrightarrow> map_entries f items = map_entries g items"
  unfolding map_entries_def by (rule map_cong[OF refl]) auto

lemma map_entries_map_entries:
  "map_entries g (map_entries f items) = map_entries (\<lambda>k v. g k (f k v)) items"
  unfolding map_entries_def by (induction items) auto

lemma mask_secrets_dict:
  "distinct (map fst items) \<Longrightarrow>
   mask_secrets (JDict items) path = JDict (map_entries (\<lambda>k v. mask_entry k v path) items)"
  using foldl_dict_set_entries[of items "\<lambda>k v. mask_entry k v path"]
  by (simp add: mask_entry_def mask_secrets.simps(1))

lemma mask_secrets_path: "mask_secrets d p = mask_secrets d q"
proof (induction d p arbitrary: q rule: mask_secrets.induct)
  case (1 items path)
  have "foldl (\<lambda>result (k, v).
        dict_set result k
          (if k \<in> SECRET_FIELDS \<and> is_str v \<and> the_str v \<noteq> []
           then JStr (mask_value (the_str v))
           else mask_secrets v (path @ ''.'' @ k))) [] items
     = foldl (\<lambda>result (k, v).
        dict_set result k
          (if k \<in> SECRET_FIELDS \<and> is_str v \<and> the_str v \<noteq> []
           then JStr (mask_value (the_str v))
           else mask_secrets v (q @ ''.'' @ k))) [] items"
  proof (rule foldl_cong[OF refl refl])
    fix a x assume x: "x \<in> set items"
    obtain k v where kv: "x = (k, v)" by (cases x)
    show "(case x of (k, v) \<Rightarrow> dict_set a k
          (if k \<in> SECRET_FIELDS \<and> is_str v \<and> the_str v \<noteq> []
           then JStr (mask_value (the_str v)) else mask_secrets v (path @ ''.'' @ k)))
      = (case x of (k, v) \<Rightarrow> dict_set a k
          (if k \<in> SECRET_FIELDS \<and> is_str v \<and> the_str v \<noteq> []
           then JStr (mask_value (the_str v)) else mask_secrets v (q @ ''.'' @ k)))"
      using "1.IH"[OF x kv[symmetric], of "q @ ''.'' @ k"] by (simp add: kv)
  qed
  then show ?case by (simp only: mask_secrets.simps)
next
  case (2 xs path)
  have "map (\<lambda>item. mask_secrets item path) xs = map (\<lambda>item. mask_secrets item q) xs"
    by (rule map_cong[OF refl]) (rule "2.IH")
  then show ?case by (simp only: mask_secrets.simps)
qed (simp_all only: mask_secrets.simps)

lemma mask_entry_eq:
  "mask_entry k v pth =
     (if k \<in> SECRET_FIELDS \<and> is_str v \<and> the_str v \<noteq> []
      then JStr (mask_value (the_str v)) else mask_secrets v pth)"
  unfolding mask_entry_def using mask_secrets_path[of v "pth @ ''.'' @ k" pth] by simp

lemma wf_json_entry: "wf_json (JDict items) \<Longrightarrow> map_of items k = Some v \<Longrightarrow> wf_json v"
  by (auto simp: list_all_iff dest!: map_of_SomeD)

lemma wf_json_distinct: "wf_json (JDict items) \<Longrightarrow> distinct (map fst items)"
  by simp

lemma wf_json_nth: "wf_json (JList xs) \<Longrightarrow> i < length xs \<Longrightarrow> wf_json (xs ! i)"
  by (simp add: list_all_length)

lemma wf_json_get_path: "wf_json d \<Longrightarrow> get_path d p = Some v \<Longrightarrow> wf_json v"
proof (induction d p rule: get_path.induct)
  case (2 items k p)
  then show ?case
    by (auto split: option.splits dest: wf_json_entry simp del: wf_json.simps)
next
  case (3 xs i p)
  from "3.prems"(2) have i: "i < length xs" and g: "get_path (xs ! i) p = Some v"
    by (auto split: if_splits)
  from wf_json_nth[OF "3.prems"(1) i] "3.IH"[OF i] g show ?case by simp
qed simp_all

lemma masked_at_Cons: "p \<noteq> [] \<Longrightarrow> masked_at (s # p) v = masked_at p v"
  by (simp add: masked_at_def)

lemma mask_get_path:
  "wf_json d \<Longrightarrow>
   get_path (mask_secrets d pth) p =
     map_option (\<lambda>v. if masked_at p v then JStr (mask_value (the_str v))
                      else mask_secrets v pth) (get_path d p)"
proof (induction p arbitrary: d)
  case Nil
  then show ?case by (simp add: masked_at_def)
next
  case (Cons s p)
  show ?case
  proof (cases d)
    case (JDict items)
    with Cons.prems have dist: "distinct (map fst items)" by simp
    show ?thesis
    proof (cases s)
      case (Key k)
      show ?thesis
      proof (cases "map_of items k")
        case None
        then show ?thesis
          by (simp add: JDict Key mask_secrets_dict[OF dist])
      next
        case (Some u)
        have wfu: "wf_json u" using Cons.prems[unfolded JDict] Some by (rule wf_json_entry)
        have lhs: "get_path (mask_secrets d pth) (s # p) = get_path (mask_entry k u pth) p"
          by (simp add: JDict Key mask_secrets_dict[OF dist] Some)
        have rhs: "get_path d (s # p) = get_path u p"
          by (simp add: JDict Key Some)
        show ?thesis
        proof (cases "p = []")
          case True
          then show ?thesis
            unfolding lhs rhs
            by (simp add: mask_entry_eq masked_at_def Key)
        next
          case False
          show ?thesis
          proof (cases "is_str u")
            case True
            then obtain t where "u = JStr t" by (cases u) auto
            with False show ?thesis
              unfolding lhs rhs by (cases p) (auto simp: mask_entry_eq)
          next
            case nstr: False
            then have "mask_entry k u pth = mask_secrets u pth"
              by (simp add: mask_entry_eq)
            then show ?thesis
              unfolding lhs rhs using Cons.IH[OF wfu] False
              by (simp add: masked_at_Cons)
          qed
        qed
      qed
    next
      case (Idx i)
      then show ?thesis
        by (simp add: JDict mask_secrets_dict[OF dist])
    qed
  next
    case (JList xs)
    show ?thesis
    proof (cases s)
      case (Key k)
      then show ?thesis by (simp add: JList)
    next
      case (Idx i)
      show ?thesis
      proof (cases "i < length xs")
        case True
        have wfx: "wf_json (xs ! i)" using Cons.prems[unfolded JList] True by (rule wf_json_nth)
        show ?thesis
        proof (cases "p = []")
          case pe: True
          then show ?thesis using True
            by (simp add: JList Idx masked_at_def)
        next
          case False
          then show ?thesis using True Cons.IH[OF wfx]
            by (simp add: JList Idx masked_at_Cons)
        qed
      next
        case False
        then show ?thesis by (simp add: JList Idx)
      qed
    qed
  qed simp_all
qed

lemma mask_entry_other:
  "\<not> (k \<in> SECRET_FIELDS \<and> is_str v \<and> the_str v \<noteq> []) \<Longrightarrow>
   mask_entry k v p = mask_secrets v p"
  by (subst mask_entry_eq) (rule if_not_P)

lemma mask_entry_secret:
  "k \<in> SECRET_FIELDS \<and> is_str v \<and> the_str v \<noteq> [] \<Longrightarrow>
   mask_entry k v p = JStr (mask_value (the_str v))"
  by (subst mask_entry_eq) (rule if_P)

lemma mask_value_idem: "mask_value (mask_value v) = mask_value v"
  by (simp add: mask_value_def)

lemma mask_value_nonempty: "mask_value v \<noteq> []"
  by (simp add: mask_value_def)

lemma endswith_mask_value: "endswith (mask_value v) ''***''"
  by (simp add: mask_value_def endswith_def)

lemma is_str_mask_secrets: "is_str (mask_secrets d pth) = is_str d"
  by (cases d) (simp_all add: mask_secrets.simps(1))

lemma mask_secrets_str: "is_str d \<Longrightarrow> mask_secrets d pth = d"
  by (cases d) simp_all

lemma mask_secrets_scalar: "\<not> is_dict d \<Longrightarrow> \<not> is_list d \<Longrightarrow> mask_secrets d pth = d"
  by (cases d) simp_all

lemma mask_secrets_dict_keys:
  assumes "wf_json (JDict items)"
  shows "\<exists>items'. mask_secrets (JDict items) pth = JDict items' \<and> map fst items' = map fst items"
  using mask_secrets_dict[OF wf_json_distinct[OF assms], of pth] by simp

lemma wf_json_item: "wf_json (JDict items) \<Longrightarrow> (k, v) \<in> set items \<Longrightarrow> wf_json v"
  by (auto simp: list_all_iff)

lemma wf_json_dictI:
  "distinct (map fst items) \<Longrightarrow> (\<And>k v. (k, v) \<in> set items \<Longrightarrow> wf_json v) \<Longrightarrow> wf_json (JDict items)"
  by (auto simp: list_all_iff)

lemma wf_json_mask_secrets: "wf_json d \<Longrightarrow> wf_json (mask_secrets d pth)"
proof (induction d arbitrary: pth rule: wf_json.induct)
  case (1 items)
  have dist: "distinct (map fst items)" by (rule wf_json_distinct[OF "1.prems"])
  have "wf_json (JDict (map_entries (\<lambda>k v. mask_entry k v pth) items))"
  proof (rule wf_json_dictI)
    show "distinct (map fst (map_entries (\<lambda>k v. mask_entry k v pth) items))"
      using dist by simp
  next
    fix k w assume "(k, w) \<in> set (map_entries (\<lambda>k v. mask_entry k v pth) items)"
    then obtain v where kv: "(k, v) \<in> set items" and w: "w = mask_entry k v pth"
      by (auto simp: set_map_entries)
    have "wf_json v" by (rule wf_json_item[OF "1.prems" kv])
    from "1.IH"[OF kv refl this] show "wf_json w"
      by (simp add: w mask_entry_eq)
  qed
  then show ?case by (simp only: mask_secrets_dict[OF dist])
next
  case (2 xs)
  then show ?case by (auto simp: list_all_iff)
qed simp_all

lemma mask_entry_idem:
  assumes "mask_secrets (mask_secrets v p) q = mask_secrets v p"
  shows "mask_entry k (mask_entry k v p) q = mask_entry k v p"
proof (cases "k \<in> SECRET_FIELDS \<and> is_str v \<and> the_str v \<noteq> []")
  case True
  then show ?thesis
    by (simp add: mask_entry_eq mask_value_idem mask_value_nonempty)
next
  case False
  then have e: "mask_entry k v p = mask_secrets v p" by (rule mask_entry_other)
  have "\<not> (k \<in> SECRET_FIELDS \<and> is_str (mask_secrets v p) \<and> the_str (mask_secrets v p) \<noteq> [])"
    using False by (auto simp: is_str_mask_secrets mask_secrets_str)
  then show ?thesis
    unfolding e using assms by (simp add: mask_entry_other)
qed

lemma mask_secrets_idem: "wf_json d \<Longrightarrow> mask_secrets (mask_secrets d p) q = mask_secrets d p"
proof (induction d arbitrary: p q rule: wf_json.induct)
  case (1 items)
  have dist: "distinct (map fst items)" by (rule wf_json_distinct[OF "1.prems"])
  let ?m = "map_entries (\<lambda>k v. mask_entry k v p) items"
  have dist': "distinct (map fst ?m)" using dist by simp
  have "map_entries (\<lambda>k v. mask_entry k v q) ?m = ?m"
    unfolding map_entries_map_entries
  proof (rule map_entries_cong)
    fix k v assume kv: "(k, v) \<in> set items"
    have wfv: "wf_json v" by (rule wf_json_item[OF "1.prems" kv])
    show "mask_entry k (mask_entry k v p) q = mask_entry k v p"
      by (rule mask_entry_idem) (rule "1.IH"[OF kv refl wfv])
  qed
  then show ?case
    by (simp add: mask_secrets_dict[OF dist] mask_secrets_dict[OF dist'])
next
  case (2 xs)
  then show ?case by (auto simp: list_all_iff)
qed simp_all

lemma secret_free_mask_secrets: "wf_json d \<Longrightarrow> secret_free d \<Longrightarrow> mask_secrets d pth = d"
proof (induction d arbitrary: pth rule: wf_json.induct)
  case (1 items)
  have dist: "distinct (map fst items)" by (rule wf_json_distinct[OF "1.prems"(1)])
  have "map_entries (\<lambda>k v. mask_entry k v pth) items = items"
  proof (rule map_entries_id)
    fix k v assume kv: "(k, v) \<in> set items"
    have wfv: "wf_json v" by (rule wf_json_item[OF "1.prems"(1) kv])
    from "1.prems"(2) kv have sf: "secret_free v"
      and ns: "\<not> (k \<in> SECRET_FIELDS \<and> is_str v \<and> the_str v \<noteq> [])"
      by (auto simp: list_all_iff)
    have "mask_entry k v pth = mask_secrets v pth"
      using ns by (rule mask_entry_other)
    also have "\<dots> = v" by (rule "1.IH"[OF kv refl wfv sf])
    finally show "mask_entry k v pth = v" .
  qed
  then show ?case by (simp add: mask_secrets_dict[OF dist])
next
  case (2 xs)
  then show ?case by (auto simp: list_all_iff intro: map_idI)
qed simp_all

lemma merge_secrets_dict:
  "distinct (map fst items) \<Longrightarrow>
   merge_secrets (JDict items) (JDict eitems) = JDict (map_entries (merge_entry eitems) items)"
  using foldl_dict_set_entries[of items "merge_entry eitems"]
  by (simp add: merge_entry_def merge_secrets.simps(1))

lemma merge_entry_placeholder:
  "k \<in> SECRET_FIELDS \<and> is_str v \<and> (endswith (the_str v) ''***'' \<or> the_str v = []) \<Longrightarrow>
   merge_entry eitems k v = dict_get eitems k (JStr [])"
  unfolding merge_entry_def by (rule if_P)

lemma merge_entry_other:
  "\<not> (k \<in> SECRET_FIELDS \<and> is_str v \<and> (endswith (the_str v) ''***'' \<or> the_str v = [])) \<Longrightarrow>
   merge_entry eitems k v = merge_secrets v (dict_get eitems k (JDict []))"
  unfolding merge_entry_def by (rule if_not_P)

lemma merge_secrets_new_not_dict: "\<not> is_dict d \<Longrightarrow> merge_secrets d e = d"
  by (cases d) simp_all

lemma merge_secrets_existing_not_dict: "\<not> is_dict e \<Longrightarrow> merge_secrets d e = d"
  by (cases d; cases e) simp_all

lemma merge_secrets_dict_keys:
  assumes "wf_json (JDict items)"
  shows "\<exists>items'. merge_secrets (JDict items) e = JDict items' \<and> map fst items' = map fst items"
proof (cases "is_dict e")
  case True
  then obtain eitems where "e = JDict eitems" by (cases e) auto
  then show ?thesis
    using merge_secrets_dict[OF wf_json_distinct[OF assms], of eitems] by simp
next
  case False
  then show ?thesis by (simp add: merge_secrets_existing_not_dict)
qed

lemma placeholder_at_Cons: "p \<noteq> [] \<Longrightarrow> placeholder_at (s # p) v = placeholder_at p v"
  by (simp add: placeholder_at_def)

lemma get_path_str: "is_str d \<Longrightarrow> p \<noteq> [] \<Longrightarrow> get_path d p = None"
  by (cases d; cases p) auto

lemma merge_get_path:
  "wf_json d \<Longrightarrow> get_path d p = Some v \<Longrightarrow> \<not> placeholder_at p v \<Longrightarrow>
   \<exists>e'. get_path (merge_secrets d e) p = Some (merge_secrets v e')"
proof (induction p arbitrary: d e)
  case Nil
  then show ?case by auto
next
  case (Cons s p)
  have verbatim: "merge_secrets d e = d \<Longrightarrow> ?case"
  proof -
    assume "merge_secrets d e = d"
    then have "get_path (merge_secrets d e) (s # p) = Some (merge_secrets v JNull)"
      using Cons.prems(2) by (simp add: merge_secrets_existing_not_dict)
    then show ?case by blast
  qed
  show ?case
  proof (cases "is_dict d \<and> is_dict e")
    case False
    then have "merge_secrets d e = d"
      by (auto simp: merge_secrets_new_not_dict merge_secrets_existing_not_dict)
    then show ?thesis by (rule verbatim)
  next
    case True
    then obtain items eitems where d: "d = JDict items" and e: "e = JDict eitems"
      by (cases d; cases e) auto
    have dist: "distinct (map fst items)" using Cons.prems(1) d by simp
    from Cons.prems(2) d obtain k u where s: "s = Key k" and u: "map_of items k = Some u"
      and gu: "get_path u p = Some v"
      by (cases s) (auto split: option.splits)
    have wfu: "wf_json u" using Cons.prems(1)[unfolded d] u by (rule wf_json_entry)
    have lhs: "get_path (merge_secrets d e) (s # p) = get_path (merge_entry eitems k u) p"
      by (simp add: d e s merge_secrets_dict[OF dist] u)
    show ?thesis
    proof (cases "p = []")
      case True
      with gu have "v = u" by simp
      with Cons.prems(3) True s
      have "\<not> (k \<in> SECRET_FIELDS \<and> is_str u \<and> (endswith (the_str u) ''***'' \<or> the_str u = []))"
        by (simp add: placeholder_at_def)
      then have "merge_entry eitems k u = merge_secrets u (dict_get eitems k (JDict []))"
        by (rule merge_entry_other)
      then show ?thesis unfolding lhs using True \<open>v = u\<close> by auto
    next
      case False
      have "\<not> is_str u" using get_path_str[OF _ False, of u] gu by auto
      then have "\<not> (k \<in> SECRET_FIELDS \<and> is_str u \<and> (endswith (the_str u) ''***'' \<or> the_str u = []))"
        by simp
      then have me: "merge_entry eitems k u = merge_secrets u (dict_get eitems k (JDict []))"
        by (rule merge_entry_other)
      from Cons.prems(3) False have "\<not> placeholder_at p v" by (simp add: placeholder_at_Cons)
      from Cons.IH[OF wfu gu this] show ?thesis unfolding lhs me .
    qed
  qed
qed

lemma dict_spine_empty: "dict_spine (JDict []) ks"
  by (cases ks) simp_all

lemma get_path_empty_dict: "p \<noteq> [] \<Longrightarrow> get_path (JDict []) p = None"
proof (cases p)
  case (Cons s q)
  then show ?thesis by (cases s) simp_all
qed simp

lemma merge_placeholder_get_path:
  "wf_json d \<Longrightarrow> dict_spine e ks \<Longrightarrow> get_path d (map Key ks @ [Key k]) = Some v \<Longrightarrow>
   k \<in> SECRET_FIELDS \<Longrightarrow> is_str v \<Longrightarrow> endswith (the_str v) ''***'' \<or> the_str v = [] \<Longrightarrow>
   get_path (merge_secrets d e) (map Key ks @ [Key k]) =
     Some (case get_path e (map Key ks @ [Key k]) of None \<Rightarrow> JStr [] | Some x \<Rightarrow> x)"
proof (induction ks arbitrary: d e)
  case Nil
  from Nil.prems(2) obtain eitems where e: "e = JDict eitems" by (cases e) auto
  from Nil.prems(3) obtain items where d: "d = JDict items" and v: "map_of items k = Some v"
    by (cases d) (auto split: option.splits)
  have dist: "distinct (map fst items)" using Nil.prems(1) d by simp
  have "merge_entry eitems k v = dict_get eitems k (JStr [])"
    using Nil.prems(4,5,6) by (intro merge_entry_placeholder) simp
  then show ?case
    by (simp add: d e merge_secrets_dict[OF dist] v dict_get_def split: option.splits)
next
  case (Cons k' ks)
  from Cons.prems(2) obtain eitems where e: "e = JDict eitems" by (cases e) auto
  from Cons.prems(3) obtain items u where d: "d = JDict items" and u: "map_of items k' = Some u"
    and gu: "get_path u (map Key ks @ [Key k]) = Some v"
    by (cases d) (auto split: option.splits)
  have dist: "distinct (map fst items)" using Cons.prems(1) d by simp
  have wfu: "wf_json u" using Cons.prems(1)[unfolded d] u by (rule wf_json_entry)
  have "\<not> is_str u" using get_path_str[of u "map Key ks @ [Key k]"] gu by auto
  then have "\<not> (k' \<in> SECRET_FIELDS \<and> is_str u \<and> (endswith (the_str u) ''***'' \<or> the_str u = []))"
    by simp
  then have me: "merge_entry eitems k' u = merge_secrets u (dict_get eitems k' (JDict []))"
    by (rule merge_entry_other)
  have lhs: "get_path (merge_secrets d e) (map Key (k' # ks) @ [Key k])
      = get_path (merge_secrets u (dict_get eitems k' (JDict []))) (map Key ks @ [Key k])"
    by (simp add: d e merge_secrets_dict[OF dist] u me)
  show ?case
  proof (cases "map_of eitems k'")
    case None
    then have dg: "dict_get eitems k' (JDict []) = JDict []" by (simp add: dict_get_def)
    have rhs: "get_path e (map Key (k' # ks) @ [Key k]) = None" by (simp add: e None)
    have "get_path (JDict []) (map Key ks @ [Key k]) = None" by (rule get_path_empty_dict) simp
    with Cons.IH[OF wfu dict_spine_empty gu Cons.prems(4,5,6)]
    show ?thesis unfolding lhs dg rhs by simp
  next
    case (Some e')
    then have dg: "dict_get eitems k' (JDict []) = e'" by (simp add: dict_get_def)
    have rhs: "get_path e (map Key (k' # ks) @ [Key k]) = get_path e' (map Key ks @ [Key k])"
      by (simp add: e Some)
    have "dict_spine e' ks" using Cons.prems(2) e Some by simp
    from Cons.IH[OF wfu this gu Cons.prems(4,5,6)]
    show ?thesis unfolding lhs dg rhs .
  qed
qed

lemma map_of_item: "distinct (map fst items) \<Longrightarrow> (k, v) \<in> set items \<Longrightarrow> map_of items k = Some v"
  by simp

lemma merge_mask_roundtrip:
  "wf_json e \<Longrightarrow> lists_secret_free e \<Longrightarrow> merge_secrets (mask_secrets e pth) e = e"
proof (induction e arbitrary: pth rule: wf_json.induct)
  case (1 items)
  have dist: "distinct (map fst items)" by (rule wf_json_distinct[OF "1.prems"(1)])
  let ?m = "map_entries (\<lambda>k v. mask_entry k v pth) items"
  have dist': "distinct (map fst ?m)" using dist by simp
  have "map_entries (merge_entry items) ?m = items"
    unfolding map_entries_map_entries
  proof (rule map_entries_id)
    fix k v assume kv: "(k, v) \<in> set items"
    have wfv: "wf_json v" by (rule wf_json_item[OF "1.prems"(1) kv])
    from "1.prems"(2) kv have lsf: "lists_secret_free v" by (auto simp: list_all_iff)
    have look: "map_of items k = Some v" by (rule map_of_item[OF dist kv])
    show "merge_entry items k (mask_entry k v pth) = v"
    proof (cases "k \<in> SECRET_FIELDS \<and> is_str v \<and> the_str v \<noteq> []")
      case True
      then have m: "mask_entry k v pth = JStr (mask_value (the_str v))"
        by (rule mask_entry_secret)
      have "merge_entry items k (JStr (mask_value (the_str v))) = dict_get items k (JStr [])"
        using True by (intro merge_entry_placeholder) (simp add: endswith_mask_value)
      then show ?thesis unfolding m by (simp add: dict_get_def look)
    next
      case False
      then have m: "mask_entry k v pth = mask_secrets v pth" by (rule mask_entry_other)
      show ?thesis
      proof (cases "is_str v")
        case str: True
        then have mv: "mask_secrets v pth = v" by (rule mask_secrets_str)
        show ?thesis
        proof (cases "k \<in> SECRET_FIELDS")
          case True
          with False str have "the_str v = []" by simp
          with True str have "merge_entry items k v = dict_get items k (JStr [])"
            by (intro merge_entry_placeholder) simp
          then show ?thesis unfolding m mv by (simp add: dict_get_def look)
        next
          case nk: False
          then have "merge_entry items k v = merge_secrets v (dict_get items k (JDict []))"
            by (intro merge_entry_other) simp
          also have "\<dots> = v" using str by (cases v) simp_all
          finally show ?thesis unfolding m mv .
        qed
      next
        case nstr: False
        then have "\<not> is_str (mask_secrets v pth)" by (simp add: is_str_mask_secrets)
        then have "merge_entry items k (mask_secrets v pth)
            = merge_secrets (mask_secrets v pth) (dict_get items k (JDict []))"
          by (intro merge_entry_other) simp
        also have "\<dots> = merge_secrets (mask_secrets v pth) v" by (simp add: dict_get_def look)
        also have "\<dots> = v" by (rule "1.IH"[OF kv refl wfv lsf])
        finally show ?thesis unfolding m .
      qed
    qed
  qed
  then show ?case
    by (simp add: mask_secrets_dict[OF dist] merge_secrets_dict[OF dist'])
next
  case (2 xs)
  have "mask_secrets (JList xs) pth = JList xs"
    using "2.prems" by (intro secret_free_mask_secrets) simp_all
  then show ?case by simp
qed simp_all

lemma secret_simps:
  "''api_key'' \<in> SECRET_FIELDS" "''token'' \<in> SECRET_FIELDS"
  "''providers'' \<notin> SECRET_FIELDS" "''anthropic'' \<notin> SECRET_FIELDS"
  "''openai'' \<notin> SECRET_FIELDS" "''api_base'' \<notin> SECRET_FIELDS"
  "''channels'' \<notin> SECRET_FIELDS" "''telegram'' \<notin> SECRET_FIELDS"
  "''enabled'' \<notin> SECRET_FIELDS" "''allow_from'' \<notin> SECRET_FIELDS"
  "''model_list'' \<notin> SECRET_FIELDS"
  by (simp_all add: SECRET_FIELDS_def)

lemma mask_stored_sample:
  "mask_secrets stored_sample [] = JDict
     [(''providers'', JDict
        [(''anthropic'', JDict [(''api_key'', JStr ''sk-real-***'')]),
         (''openai'', JDict [(''api_key'', JStr ''***''), (''api_base'', JStr ''https://x'')])]),
      (''channels'', JDict
        [(''telegram'', JDict [(''enabled'', JBool True), (''token'', JStr []),
            (''allow_from'', JList [JStr ''alice'', JStr ''bob''])])]),
      (''token'', JInt 7)]"
  by (simp add: stored_sample_def mask_secrets.simps(1) secret_simps mask_value_def real_key_def)

lemma wf_stored_sample: "wf_json stored_sample"
  by (simp add: stored_sample_def)

lemma get_path_append:
  "get_path d (p @ q) = (case get_path d p of None \<Rightarrow> None | Some v \<Rightarrow> get_path v q)"
  by (induction d p rule: get_path.induct) (auto split: option.splits)

lemma merge_get_path_leaf:
  assumes "wf_json d" "get_path d p = Some v" "\<not> is_dict v" "\<not> placeholder_at p v"
  shows "get_path (merge_secrets d e) p = Some v"
  using merge_get_path[OF assms(1,2,4), of e] assms(3)
  by (auto simp: merge_secrets_new_not_dict)

lemma merge_get_path_dict:
  assumes "wf_json d" "get_path d p = Some (JDict items)"
  shows "\<exists>items'. get_path (merge_secrets d e) p = Some (JDict items')
            \<and> map fst items' = map fst items"
proof -
  have "\<not> placeholder_at p (JDict items)" by (simp add: placeholder_at_def)
  from merge_get_path[OF assms this, of e]
  obtain e' where g: "get_path (merge_secrets d e) p = Some (merge_secrets (JDict items) e')"
    by blast
  have "wf_json (JDict items)" by (rule wf_json_get_path[OF assms])
  from merge_secrets_dict_keys[OF this, of e'] g show ?thesis by auto
qed

lemma map_of_absent: "k \<notin> set (map fst items) \<Longrightarrow> map_of items k = None"
  by (simp add: map_of_eq_None_iff)

text \<open>
  Claim C4. Merging is a full replace on every branch that is not a secret placeholder.
  For every well-formed incoming document \<open>D\<close> and every existing document \<open>E\<close>: each
  dict of \<open>D\<close>, at any path, is a dict of the result at the same path with exactly
  the keys of \<open>D\<close>, in the same order, so a key that only \<open>E\<close> holds is absent from the
  result; each value of \<open>D\<close> that is not a dict, and is not a placeholder under a secret
  key, is in the result verbatim at the same path; and an incoming document that is
  not a dict is the result as it stands.
\<close>

theorem merge_secrets_full_replace:
  assumes "wf_json D"
  shows "(\<forall>p items. get_path D p = Some (JDict items) \<longrightarrow>
            (\<exists>items'. get_path (merge_secrets D E) p = Some (JDict items')
                \<and> map fst items' = map fst items))
       \<and> (\<forall>p items k. get_path D p = Some (JDict items) \<and> k \<notin> set (map fst items) \<longrightarrow>
            get_path (merge_secrets D E) (p @ [Key k]) = None)
       \<and> (\<forall>p v. get_path D p = Some v \<and> \<not> is_dict v \<and> \<not> placeholder_at p v \<longrightarrow>
            get_path (merge_secrets D E) p = Some v)
       \<and> (\<not> is_dict D \<longrightarrow> merge_secrets D E = D)"
proof (intro conjI allI impI)
  fix p items assume "get_path D p = Some (JDict items)"
  then show "\<exists>items'. get_path (merge_secrets D E) p = Some (JDict items')
      \<and> map fst items' = map fst items"
    by (rule merge_get_path_dict[OF assms])
next
  fix p items k assume a: "get_path D p = Some (JDict items) \<and> k \<notin> set (map fst items)"
  then obtain items' where g: "get_path (merge_secrets D E) p = Some (JDict items')"
    and keys: "map fst items' = map fst items"
    using merge_get_path_dict[OF assms, of p items E] by blast
  from a keys have "map_of items' k = None" by (intro map_of_absent) simp
  then show "get_path (merge_secrets D E) (p @ [Key k]) = None"
    by (simp add: get_path_append g)
next
  fix p v assume "get_path D p = Some v \<and> \<not> is_dict v \<and> \<not> placeholder_at p v"
  then show "get_path (merge_secrets D E) p = Some v"
    using merge_get_path_leaf[OF assms, of p v E] by blast
next
  assume "\<not> is_dict D"
  then show "merge_secrets D E = D" by (rule merge_secrets_new_not_dict)
qed

theorem merge_secrets_full_replace_witness:
  "wf_json partial_submission
   \<and> get_path stored_sample [Key ''providers'', Key ''openai'']
        = Some (JDict [(''api_key'', JStr ''short''), (''api_base'', JStr ''https://x'')])
   \<and> get_path (merge_secrets partial_submission stored_sample)
        ([Key ''providers''] @ [Key ''openai'']) = None
   \<and> (\<exists>items'. get_path (merge_secrets partial_submission stored_sample) [Key ''providers'']
          = Some (JDict items') \<and> map fst items' = [''anthropic''])
   \<and> merge_secrets (JInt 7) stored_sample = JInt 7"
proof -
  have wf: "wf_json partial_submission" by (simp add: partial_submission_def)
  note rule = merge_secrets_full_replace[OF wf, of stored_sample]
  have g: "get_path partial_submission [Key ''providers'']
      = Some (JDict [(''anthropic'', JDict [(''api_key'', JStr ''sk-real-***'')])])"
    by (simp add: partial_submission_def)
  have 1: "get_path stored_sample [Key ''providers'', Key ''openai'']
        = Some (JDict [(''api_key'', JStr ''short''), (''api_base'', JStr ''https://x'')])"
    by (simp add: stored_sample_def)
  have "get_path partial_submission [Key ''providers'']
      = Some (JDict [(''anthropic'', JDict [(''api_key'', JStr ''sk-real-***'')])])
    \<and> ''openai'' \<notin> set (map fst [(''anthropic'', JDict [(''api_key'', JStr ''sk-real-***'')])])"
    using g by simp
  note 2 = rule[THEN conjunct2, THEN conjunct1, rule_format, OF this]
  from rule[THEN conjunct1, rule_format, OF g]
  have 3: "\<exists>items'. get_path (merge_secrets partial_submission stored_sample) [Key ''providers'']
          = Some (JDict items') \<and> map fst items' = [''anthropic'']"
    by simp
  have "wf_json (JInt 7)" by simp
  from merge_secrets_full_replace[OF this, of stored_sample]
  have 4: "merge_secrets (JInt 7) stored_sample = JInt 7" by simp
  from wf 1 2 3 4 show ?thesis by blast
qed

text \<open>
  Claim C3. For every well-formed document \<open>D\<close> and every path \<open>p\<close> to a node \<open>v\<close> of
  it: when \<open>v\<close> is a dict entry under a secret key and a non-empty string, the masked
  document holds at \<open>p\<close> the string \<open>***\<close> if \<open>v\<close> has at most 8 characters and the first
  8 characters of \<open>v\<close> followed by \<open>***\<close> otherwise; any other value that is neither a
  dict nor a list (under a non-secret key, an empty string or a non-string under a
  secret key, an element of a list) is there unchanged; a dict is a dict with the same
  keys in the same order; a list is a list of the same length; and the masked document
  has no node where \<open>D\<close> has none.
\<close>

theorem mask_secrets_rule:
  assumes "wf_json D"
  shows "(\<forall>p v. get_path D p = Some v \<and> masked_at p v \<longrightarrow>
            get_path (mask_secrets D pth) p =
              Some (JStr (if length (the_str v) \<le> 8 then ''***''
                          else take 8 (the_str v) @ ''***'')))
       \<and> (\<forall>p v. get_path D p = Some v \<and> \<not> masked_at p v \<and> \<not> is_dict v \<and> \<not> is_list v \<longrightarrow>
            get_path (mask_secrets D pth) p = Some v)
       \<and> (\<forall>p items. get_path D p = Some (JDict items) \<longrightarrow>
            (\<exists>items'. get_path (mask_secrets D pth) p = Some (JDict items')
                \<and> map fst items' = map fst items))
       \<and> (\<forall>p xs. get_path D p = Some (JList xs) \<longrightarrow>
            (\<exists>xs'. get_path (mask_secrets D pth) p = Some (JList xs')
                \<and> length xs' = length xs))
       \<and> (\<forall>p. get_path D p = None \<longrightarrow> get_path (mask_secrets D pth) p = None)"
proof (intro conjI allI impI)
  fix p v assume "get_path D p = Some v \<and> masked_at p v"
  then show "get_path (mask_secrets D pth) p =
      Some (JStr (if length (the_str v) \<le> 8 then ''***'' else take 8 (the_str v) @ ''***''))"
    by (simp add: mask_get_path[OF assms] mask_value_def)
next
  fix p v
  assume "get_path D p = Some v \<and> \<not> masked_at p v \<and> \<not> is_dict v \<and> \<not> is_list v"
  then show "get_path (mask_secrets D pth) p = Some v"
    by (simp add: mask_get_path[OF assms] mask_secrets_scalar)
next
  fix p items assume g: "get_path D p = Some (JDict items)"
  have "wf_json (JDict items)" by (rule wf_json_get_path[OF assms g])
  from mask_secrets_dict_keys[OF this, of pth]
  show "\<exists>items'. get_path (mask_secrets D pth) p = Some (JDict items')
      \<and> map fst items' = map fst items"
    by (simp add: mask_get_path[OF assms] g masked_at_def)
next
  fix p xs assume g: "get_path D p = Some (JList xs)"
  then show "\<exists>xs'. get_path (mask_secrets D pth) p = Some (JList xs') \<and> length xs' = length xs"
    by (simp add: mask_get_path[OF assms] masked_at_def)
next
  fix p assume "get_path D p = None"
  then show "get_path (mask_secrets D pth) p = None"
    by (simp add: mask_get_path[OF assms])
qed

theorem mask_secrets_rule_witness:
  "wf_json stored_sample
   \<and> get_path (mask_secrets stored_sample []) api_key_path = Some (JStr ''sk-real-***'')
   \<and> get_path (mask_secrets stored_sample [])
        [Key ''providers'', Key ''openai'', Key ''api_key''] = Some (JStr ''***'')
   \<and> get_path (mask_secrets stored_sample [])
        [Key ''channels'', Key ''telegram'', Key ''token''] = Some (JStr [])
   \<and> get_path (mask_secrets stored_sample []) [Key ''token''] = Some (JInt 7)
   \<and> get_path (mask_secrets stored_sample [])
        [Key ''channels'', Key ''telegram'', Key ''allow_from'', Idx 1] = Some (JStr ''bob'')"
proof -
  have wf: "wf_json stored_sample" by (rule wf_stored_sample)
  note rule = mask_secrets_rule[OF wf, of "[]"]
  have a: "get_path stored_sample api_key_path = Some (JStr real_key)
      \<and> masked_at api_key_path (JStr real_key)"
    by (simp add: stored_sample_def api_key_path_def masked_at_def real_key_def secret_simps)
  have b: "get_path stored_sample [Key ''providers'', Key ''openai'', Key ''api_key'']
        = Some (JStr ''short'')
      \<and> masked_at [Key ''providers'', Key ''openai'', Key ''api_key''] (JStr ''short'')"
    by (simp add: stored_sample_def masked_at_def secret_simps)
  have c: "get_path stored_sample [Key ''channels'', Key ''telegram'', Key ''token'']
        = Some (JStr [])
      \<and> \<not> masked_at [Key ''channels'', Key ''telegram'', Key ''token''] (JStr [])
      \<and> \<not> is_dict (JStr []) \<and> \<not> is_list (JStr [])"
    by (simp add: stored_sample_def masked_at_def)
  have d: "get_path stored_sample [Key ''token''] = Some (JInt 7)
      \<and> \<not> masked_at [Key ''token''] (JInt 7) \<and> \<not> is_dict (JInt 7) \<and> \<not> is_list (JInt 7)"
    by (simp add: stored_sample_def masked_at_def)
  have e: "get_path stored_sample [Key ''channels'', Key ''telegram'', Key ''allow_from'', Idx 1]
        = Some (JStr ''bob'')
      \<and> \<not> masked_at [Key ''channels'', Key ''telegram'', Key ''allow_from'', Idx 1] (JStr ''bob'')
      \<and> \<not> is_dict (JStr ''bob'') \<and> \<not> is_list (JStr ''bob'')"
    by (simp add: stored_sample_def masked_at_def)
  from rule[THEN conjunct1, rule_format, OF a]
  have 1: "get_path (mask_secrets stored_sample []) api_key_path = Some (JStr ''sk-real-***'')"
    by (simp add: real_key_def)
  from rule[THEN conjunct1, rule_format, OF b]
  have 2: "get_path (mask_secrets stored_sample [])
        [Key ''providers'', Key ''openai'', Key ''api_key''] = Some (JStr ''***'')"
    by simp
  note other = rule[THEN conjunct2, THEN conjunct1, rule_format]
  note 3 = other[OF c] and 4 = other[OF d] and 5 = other[OF e]
  from wf 1 2 3 4 5 show ?thesis by blast
qed

text \<open>
  Claim C5. The mask rule applied to a masked value gives that masked value again, and
  masking a masked document changes nothing: \<open>mask (mask D)\<close> and \<open>mask D\<close> are the same
  document, so they agree on every secret leaf.
\<close>

theorem mask_secrets_idempotent:
  "wf_json D \<Longrightarrow>
   mask_value (mask_value v) = mask_value v
   \<and> mask_secrets (mask_secrets D p) q = mask_secrets D p"
  by (simp add: mask_value_idem mask_secrets_idem)

theorem mask_secrets_idempotent_witness:
  "wf_json stored_sample
   \<and> mask_value (mask_value real_key) = ''sk-real-***''
   \<and> mask_secrets (mask_secrets stored_sample []) [] = masked_sample"
  using mask_secrets_idempotent[OF wf_stored_sample, of real_key "[]" "[]"]
  by (simp add: wf_stored_sample mask_stored_sample masked_sample_def mask_value_def real_key_def)

lemma merge_singleton:
  "merge_secrets (JDict [(k, v)]) (JDict eitems) = JDict [(k, merge_entry eitems k v)]"
  using merge_secrets_dict[of "[(k, v)]" eitems] by (simp add: map_entries_def)

lemma endswith_real_key: "\<not> endswith real_key ''***''" "real_key \<noteq> []"
  by (simp_all add: endswith_def real_key_def)

lemma merge_submitted_key: "merge_secrets submitted_key E = submitted_key"
proof -
  have inner: "merge_secrets (JDict [(''api_key'', JStr real_key)]) e
      = JDict [(''api_key'', JStr real_key)]" for e
    by (cases e) (simp_all add: merge_singleton merge_entry_def endswith_real_key)
  have mid: "merge_secrets (JDict [(''anthropic'', JDict [(''api_key'', JStr real_key)])]) e
      = JDict [(''anthropic'', JDict [(''api_key'', JStr real_key)])]" for e
    by (cases e) (simp_all add: merge_singleton merge_entry_def inner secret_simps)
  show ?thesis
    unfolding submitted_key_def
    by (cases E) (simp_all add: merge_singleton merge_entry_def mid secret_simps)
qed

lemma mask_submitted_key:
  "mask_secrets submitted_key pth =
     JDict [(''providers'', JDict [(''anthropic'', JDict [(''api_key'', JStr ''sk-real-***'')])])]"
  by (simp add: submitted_key_def mask_secrets.simps(1) secret_simps mask_value_def real_key_def)

text \<open>
  Claim C2, as amended. Whatever document \<open>E\<close> is stored (the default document, whose
  \<open>providers.anthropic.api_key\<close> is the empty string, is one), merging the incoming
  document \<open>{"providers": {"anthropic": {"api_key": "sk-real-value-123456"}}}\<close> stores
  the key verbatim, and masking the stored document shows it as its first eight
  characters and the marker, \<open>sk-real-***\<close>.
\<close>

theorem merge_then_mask_submitted_key:
  "merge_secrets submitted_key E = submitted_key
   \<and> get_path (merge_secrets submitted_key E) api_key_path = Some (JStr ''sk-real-value-123456'')
   \<and> get_path (mask_secrets (merge_secrets submitted_key E) pth) api_key_path
        = Some (JStr ''sk-real-***'')
   \<and> get_path default_config api_key_path = Some (JStr [])"
  by (simp add: merge_submitted_key mask_submitted_key)
     (simp add: submitted_key_def api_key_path_def real_key_def default_config_def)

text \<open>
  Claim C2 as stated expects \<open>sk-real-v***\<close>, nine characters before the marker; the
  read returns another string.
\<close>

theorem merge_then_mask_counterexample:
  "get_path default_config api_key_path = Some (JStr [])
   \<and> get_path (mask_secrets (merge_secrets submitted_key default_config) []) api_key_path
        \<noteq> Some (JStr ''sk-real-v***'')"
  by (simp add: merge_submitted_key mask_submitted_key)
     (simp add: api_key_path_def default_config_def)

text \<open>
  Claim C1, as amended. For every well-formed incoming document \<open>D\<close> and every existing
  document \<open>E\<close>: a placeholder of \<open>D\<close> (a string that is empty or ends with \<open>***\<close>, under
  a secret key) that is reached from the root through dict keys \<open>ks\<close>, where \<open>E\<close> holds a
  dict at every step of \<open>ks\<close> that it has, is replaced by the value of \<open>E\<close> at the same
  path, or by the empty string when \<open>E\<close> has none; every value of \<open>D\<close> that is neither a
  dict nor such a placeholder is reproduced at its path, and every dict of \<open>D\<close> keeps
  exactly its keys; and merging the masked form of a well-formed stored document \<open>E\<close>
  into \<open>E\<close> gives \<open>E\<close> back, when no list of \<open>E\<close> holds a non-empty secret string.
\<close>

theorem merge_secrets_placeholders:
  assumes "wf_json D"
  shows "(\<forall>ks k v. dict_spine E ks \<and> get_path D (map Key ks @ [Key k]) = Some v
              \<and> placeholder_at [Key k] v \<longrightarrow>
            get_path (merge_secrets D E) (map Key ks @ [Key k]) =
              Some (case get_path E (map Key ks @ [Key k]) of
                      None \<Rightarrow> JStr [] | Some x \<Rightarrow> x))
       \<and> (\<forall>p v. get_path D p = Some v \<and> \<not> is_dict v \<and> \<not> placeholder_at p v \<longrightarrow>
            get_path (merge_secrets D E) p = Some v)
       \<and> (\<forall>p items. get_path D p = Some (JDict items) \<longrightarrow>
            (\<exists>items'. get_path (merge_secrets D E) p = Some (JDict items')
                \<and> map fst items' = map fst items))
       \<and> (wf_json E \<and> lists_secret_free E \<longrightarrow>
            merge_secrets (mask_secrets E pth) E = E)"
proof (intro conjI allI impI)
  fix ks k v
  assume a: "dict_spine E ks \<and> get_path D (map Key ks @ [Key k]) = Some v
      \<and> placeholder_at [Key k] v"
  then have "k \<in> SECRET_FIELDS" "is_str v" "endswith (the_str v) ''***'' \<or> the_str v = []"
    by (simp_all add: placeholder_at_def)
  with a show "get_path (merge_secrets D E) (map Key ks @ [Key k]) =
      Some (case get_path E (map Key ks @ [Key k]) of None \<Rightarrow> JStr [] | Some x \<Rightarrow> x)"
    by (intro merge_placeholder_get_path[OF assms]) simp_all
next
  fix p v assume "get_path D p = Some v \<and> \<not> is_dict v \<and> \<not> placeholder_at p v"
  then show "get_path (merge_secrets D E) p = Some v"
    using merge_get_path_leaf[OF assms, of p v E] by blast
next
  fix p items assume "get_path D p = Some (JDict items)"
  then show "\<exists>items'. get_path (merge_secrets D E) p = Some (JDict items')
      \<and> map fst items' = map fst items"
    by (rule merge_get_path_dict[OF assms])
next
  assume "wf_json E \<and> lists_secret_free E"
  then show "merge_secrets (mask_secrets E pth) E = E"
    by (simp add: merge_mask_roundtrip)
qed

theorem merge_secrets_placeholders_witness:
  "wf_json masked_sample
   \<and> get_path masked_sample api_key_path = Some (JStr ''sk-real-***'')
   \<and> get_path (merge_secrets masked_sample stored_sample) api_key_path
        = Some (JStr ''sk-real-value-123456'')
   \<and> get_path (merge_secrets masked_sample stored_sample)
        [Key ''channels'', Key ''telegram'', Key ''enabled''] = Some (JBool True)
   \<and> merge_secrets (mask_secrets stored_sample []) stored_sample = stored_sample"
proof -
  have wf: "wf_json masked_sample" by (simp add: masked_sample_def)
  note rule = merge_secrets_placeholders[OF wf, of stored_sample "[]"]
  have g: "get_path masked_sample api_key_path = Some (JStr ''sk-real-***'')"
    by (simp add: masked_sample_def api_key_path_def)
  have "dict_spine stored_sample [''providers'', ''anthropic'']
      \<and> get_path masked_sample (map Key [''providers'', ''anthropic''] @ [Key ''api_key''])
          = Some (JStr ''sk-real-***'')
      \<and> placeholder_at [Key ''api_key''] (JStr ''sk-real-***'')"
    by (simp add: stored_sample_def masked_sample_def placeholder_at_def secret_simps endswith_def)
  from rule[THEN conjunct1, rule_format, OF this]
  have 1: "get_path (merge_secrets masked_sample stored_sample) api_key_path
        = Some (JStr ''sk-real-value-123456'')"
    by (simp add: api_key_path_def stored_sample_def real_key_def)
  have "get_path masked_sample [Key ''channels'', Key ''telegram'', Key ''enabled'']
        = Some (JBool True)
      \<and> \<not> is_dict (JBool True)
      \<and> \<not> placeholder_at [Key ''channels'', Key ''telegram'', Key ''enabled''] (JBool True)"
    by (simp add: masked_sample_def placeholder_at_def)
  note 2 = rule[THEN conjunct2, THEN conjunct1, rule_format, OF this]
  have "wf_json stored_sample \<and> lists_secret_free stored_sample"
    by (simp add: stored_sample_def)
  note 3 = rule[THEN conjunct2, THEN conjunct2, THEN conjunct2, rule_format, OF this]
  from wf g 1 2 3 show ?thesis by blast
qed

text \<open>
  Claim C1 as stated fails where the stored document holds something that is not a dict
  on the way to the placeholder (the placeholder is then stored as it stands, not the
  empty string), and where the secret sits in a dict inside a list (the merge does not
  enter lists, so the masked string replaces the stored key).
\<close>

theorem merge_secrets_placeholders_counterexample:
  "get_path masked_submission api_key_path = Some (JStr ''***'')
   \<and> placeholder_at api_key_path (JStr ''***'')
   \<and> get_path stored_null_provider api_key_path = None
   \<and> get_path (merge_secrets masked_submission stored_null_provider) api_key_path
        \<noteq> Some (JStr [])
   \<and> get_path stored_model_list [Key ''model_list'', Idx 0, Key ''api_key'']
        = Some (JStr ''sk-real-value-123456'')
   \<and> get_path (mask_secrets stored_model_list []) [Key ''model_list'', Idx 0, Key ''api_key'']
        = Some (JStr ''sk-real-***'')
   \<and> get_path (merge_secrets (mask_secrets stored_model_list []) stored_model_list)
        [Key ''model_list'', Idx 0, Key ''api_key''] = Some (JStr ''sk-real-***'')"
  by (simp add: masked_submission_def stored_null_provider_def stored_model_list_def
      api_key_path_def placeholder_at_def secret_simps endswith_def real_key_def
      mask_secrets.simps(1) merge_secrets.simps(1) mask_value_def dict_get_def)

text \<open>
  Claim C10, as amended. In a merge of two dicts, an entry of the incoming dict under a
  secret key whose value \<open>v\<close> is not a string is not substituted: the result holds at
  that key the merge of \<open>v\<close> with the stored value (or with an empty dict). That is \<open>v\<close>
  verbatim when \<open>v\<close> is not a dict, or when the stored value is not a dict; when both
  are dicts, it is a dict with exactly the keys of \<open>v\<close>, merged entry by entry.
\<close>

theorem merge_secrets_non_string_secret:
  assumes "wf_json (JDict items)" and "k \<in> SECRET_FIELDS"
    and "map_of items k = Some v" and "\<not> is_str v"
  shows "get_path (merge_secrets (JDict items) (JDict eitems)) [Key k]
           = Some (merge_secrets v (dict_get eitems k (JDict [])))
       \<and> (\<not> is_dict v \<or> \<not> is_dict (dict_get eitems k (JDict [])) \<longrightarrow>
            get_path (merge_secrets (JDict items) (JDict eitems)) [Key k] = Some v)
       \<and> (\<forall>vitems. v = JDict vitems \<longrightarrow>
            (\<exists>vitems'. get_path (merge_secrets (JDict items) (JDict eitems)) [Key k]
                  = Some (JDict vitems') \<and> map fst vitems' = map fst vitems))"
proof -
  have dist: "distinct (map fst items)" by (rule wf_json_distinct[OF assms(1)])
  have "\<not> (k \<in> SECRET_FIELDS \<and> is_str v \<and> (endswith (the_str v) ''***'' \<or> the_str v = []))"
    using assms(4) by simp
  then have me: "merge_entry eitems k v = merge_secrets v (dict_get eitems k (JDict []))"
    by (rule merge_entry_other)
  have g: "get_path (merge_secrets (JDict items) (JDict eitems)) [Key k]
      = Some (merge_secrets v (dict_get eitems k (JDict [])))"
    by (simp add: merge_secrets_dict[OF dist] assms(3) me)
  have wfv: "wf_json v" by (rule wf_json_entry[OF assms(1,3)])
  show ?thesis
  proof (intro conjI allI impI)
    show "get_path (merge_secrets (JDict items) (JDict eitems)) [Key k]
        = Some (merge_secrets v (dict_get eitems k (JDict [])))" by (rule g)
  next
    assume "\<not> is_dict v \<or> \<not> is_dict (dict_get eitems k (JDict []))"
    then show "get_path (merge_secrets (JDict items) (JDict eitems)) [Key k] = Some v"
      unfolding g
      by (auto simp: merge_secrets_new_not_dict merge_secrets_existing_not_dict)
  next
    fix vitems assume v: "v = JDict vitems"
    from merge_secrets_dict_keys[OF wfv[unfolded v], of "dict_get eitems k (JDict [])"]
    show "\<exists>vitems'. get_path (merge_secrets (JDict items) (JDict eitems)) [Key k]
        = Some (JDict vitems') \<and> map fst vitems' = map fst vitems"
      unfolding g v by simp
  qed
qed

theorem merge_secrets_non_string_secret_witness:
  "wf_json numeric_incoming
   \<and> get_path flat_existing [Key ''api_key''] = Some (JStr ''sk-real-value-123456'')
   \<and> get_path (merge_secrets numeric_incoming flat_existing) [Key ''api_key''] = Some (JInt 5)"
proof -
  have wf: "wf_json (JDict [(''api_key'', JInt 5)])" by simp
  have look: "map_of [(''api_key'', JInt 5)] ''api_key'' = Some (JInt 5)" by simp
  have ns: "\<not> is_str (JInt 5)" by simp
  note rule = merge_secrets_non_string_secret[OF wf secret_simps(1) look ns,
      of "[(''api_key'', JStr real_key)]"]
  have "\<not> is_dict (JInt 5) \<or> \<not> is_dict (dict_get [(''api_key'', JStr real_key)] ''api_key'' (JDict []))"
    by simp
  from rule[THEN conjunct2, THEN conjunct1, rule_format, OF this] wf
  show ?thesis
    by (simp add: numeric_incoming_def flat_existing_def real_key_def)
qed

text \<open>
  Claim C10 as stated fails for a dict under a secret key: the recursion runs inside
  it, and its own placeholders are replaced by stored values.
\<close>

theorem merge_secrets_non_string_secret_counterexample:
  "''token'' \<in> SECRET_FIELDS
   \<and> get_path nested_incoming [Key ''token''] = Some (JDict [(''api_key'', JStr ''***'')])
   \<and> \<not> is_str (JDict [(''api_key'', JStr ''***'')])
   \<and> get_path (merge_secrets nested_incoming nested_existing) [Key ''token'']
        \<noteq> Some (JDict [(''api_key'', JStr ''***'')])
   \<and> get_path (merge_secrets nested_incoming nested_existing) [Key ''token'', Key ''api_key'']
        = get_path nested_existing [Key ''token'', Key ''api_key'']"
  by (simp add: nested_incoming_def nested_existing_def secret_simps merge_secrets.simps(1)
      endswith_def dict_get_def real_key_def)

section \<open>The supervisor\<close>

declare str_nat.simps [simp del]

lemma maxlen_deque_append [simp]: "maxlen (deque_append d x) = maxlen d"
  by (simp add: deque_append_def Let_def)

lemma elems_deque_append:
  "elems (deque_append d x) =
     (if length (elems d) < maxlen d then elems d @ [x] else tl (elems d @ [x]))"
  by (simp add: deque_append_def Let_def)

lemma length_deque_append:
  "length (elems d) \<le> maxlen d \<Longrightarrow> length (elems (deque_append d x)) \<le> maxlen d"
  by (simp add: elems_deque_append)

lemma tl_eq_drop: "tl xs = drop 1 xs"
  by (simp add: drop_Suc)

lemma elems_deque_append_drop:
  assumes "length (elems d) \<le> maxlen d"
  shows "elems (deque_append d x) = drop (length (elems d) + 1 - maxlen d) (elems d @ [x])"
proof (cases "length (elems d) < maxlen d")
  case True
  then show ?thesis by (simp add: elems_deque_append)
next
  case False
  with assms have "length (elems d) + 1 - maxlen d = 1" by simp
  with False show ?thesis
    by (simp only: elems_deque_append if_False tl_eq_drop)
qed

lemma elems_foldl_deque_append:
  "length (elems d) \<le> maxlen d \<Longrightarrow>
   elems (foldl deque_append d ls) = drop (length (elems d) + length ls - maxlen d) (elems d @ ls)
   \<and> maxlen (foldl deque_append d ls) = maxlen d"
proof (induction ls arbitrary: d)
  case Nil
  then show ?case by simp
next
  case (Cons x ls)
  let ?d = "deque_append d x"
  have len: "length (elems ?d) \<le> maxlen ?d"
    using length_deque_append[OF Cons.prems] by simp
  have it: "elems ?d = drop (length (elems d) + 1 - maxlen d) (elems d @ [x])"
    by (rule elems_deque_append_drop[OF Cons.prems])
  have "elems (foldl deque_append ?d ls)
      = drop (length (elems ?d) + length ls - maxlen d) (elems ?d @ ls)"
    using Cons.IH[OF len] by simp
  also have "\<dots> = drop (length (elems d) + length (x # ls) - maxlen d) (elems d @ x # ls)"
  proof (cases "length (elems d) < maxlen d")
    case True
    then show ?thesis by (simp add: elems_deque_append)
  next
    case False
    with Cons.prems have eq: "length (elems d) = maxlen d" by simp
    have "elems ?d @ ls = drop 1 (elems d @ x # ls)"
    proof (cases "elems d")
      case Nil
      then show ?thesis using False by (simp add: elems_deque_append)
    next
      case (Cons y ys)
      then show ?thesis using False by (simp add: elems_deque_append)
    qed
    moreover have "length (elems ?d) + length ls - maxlen d = length ls"
      using False eq by (simp add: elems_deque_append)
    moreover have "length (elems d) + length (x # ls) - maxlen d = length ls + 1"
      using eq by simp
    ultimately show ?thesis by (simp only: drop_drop)
  qed
  finally show ?case using Cons.IH[OF len] by simp
qed

lemma elems_foldl_deque_append_init:
  "elems (foldl deque_append (logs init) ls) = drop (length ls - 500) ls"
  using elems_foldl_deque_append[of "logs init" ls] by (simp add: init_def)

lemma logs_ok_append:
  "logs_ok w \<Longrightarrow> logs w' = deque_append (logs w) x \<Longrightarrow> logs_ok w'"
  using length_deque_append[of "logs w" x] by (simp add: logs_ok_def)

lemma logs_ok_same: "logs_ok w \<Longrightarrow> logs w' = logs w \<Longrightarrow> logs_ok w'"
  by (simp add: logs_ok_def)

lemma logs_start_call: "logs (fst (start_call w)) = logs w"
  by (simp add: start_call_def)

lemma logs_after_stop: "logs (fst (after_stop r w)) = logs w"
  by (simp add: after_stop_def logs_start_call)

lemma logs_stop_call: "logs (fst (stop_call r w)) = logs w"
  by (simp add: stop_call_def logs_after_stop split: option.splits)

lemma logs_stop_timeout: "logs (fst (stop_timeout r w)) = logs w"
  by (simp add: stop_timeout_def split: option.splits)

lemma logs_stop_finish: "logs (fst (stop_finish r w)) = logs w"
  by (simp add: stop_finish_def logs_after_stop)

lemma logs_ok_start_resume: "logs_ok w \<Longrightarrow> logs_ok (start_resume sp w)"
  by (cases sp) (auto elim: logs_ok_append logs_ok_same)

lemma logs_ok_read_exit: "logs_ok w \<Longrightarrow> logs_ok (fst (read_exit w))"
  by (auto simp: read_exit_def split: option.splits elim: logs_ok_append)

lemma logs_ok_read_loop: "logs_ok w \<Longrightarrow> logs_ok (fst (read_loop w))"
  by (auto simp: read_loop_def logs_ok_read_exit split: option.splits)

lemma logs_ok_read_line: "logs_ok w \<Longrightarrow> logs_ok (fst (read_line l w))"
  unfolding read_line_def by (rule logs_ok_read_loop) (auto elim: logs_ok_append)

lemma logs_ok_set_task: "logs_ok (fst r) \<Longrightarrow> logs_ok (set_task i r)"
  by (simp add: set_task_def logs_ok_def)

lemma logs_ok_new_task: "logs_ok (fst r) \<Longrightarrow> logs_ok (new_task r)"
  by (simp add: new_task_def logs_ok_def)

lemma logs_ok_step: "logs_ok w \<Longrightarrow> step w e = Some w' \<Longrightarrow> logs_ok w'"
proof (cases e)
  case (Call c)
  assume "logs_ok w" "step w e = Some w'"
  then show ?thesis using Call
    by (cases c) (auto intro!: logs_ok_new_task elim: logs_ok_same
        simp: logs_start_call logs_stop_call)
next
  case (SpawnReturns i pid now)
  assume "logs_ok w" "step w e = Some w'"
  then show ?thesis using SpawnReturns
    by (auto split: task.splits simp del: start_resume.simps
        intro!: logs_ok_set_task logs_ok_start_resume)
next
  case (SpawnRaises i m)
  assume "logs_ok w" "step w e = Some w'"
  then show ?thesis using SpawnRaises
    by (auto split: task.splits simp del: start_resume.simps
        intro!: logs_ok_set_task logs_ok_start_resume)
next
  case (WaitReturns i)
  assume "logs_ok w" "step w e = Some w'"
  then show ?thesis using WaitReturns
    by (auto split: task.splits if_splits intro!: logs_ok_set_task elim: logs_ok_same
        simp: logs_stop_finish)
next
  case (WaitTimesOut i)
  assume "logs_ok w" "step w e = Some w'"
  then show ?thesis using WaitTimesOut
    by (auto split: task.splits intro!: logs_ok_set_task elim: logs_ok_same
        simp: logs_stop_timeout)
next
  case (Runs i)
  assume "logs_ok w" "step w e = Some w'"
  then show ?thesis using Runs
    by (auto split: task.splits intro!: logs_ok_set_task logs_ok_read_loop)
next
  case (ReadsLine i l)
  assume "logs_ok w" "step w e = Some w'"
  then show ?thesis using ReadsLine
    by (auto split: task.splits intro!: logs_ok_set_task logs_ok_read_line)
next
  case (ReadsEof i)
  assume "logs_ok w" "step w e = Some w'"
  then show ?thesis using ReadsEof
    by (auto split: task.splits intro!: logs_ok_set_task logs_ok_read_exit)
next
  case (Exits h rc)
  assume "logs_ok w" "step w e = Some w'"
  then show ?thesis using Exits
    by (auto split: if_splits simp: child_exit_def logs_ok_def)
next
  case (Cancelled i)
  assume "logs_ok w" "step w e = Some w'"
  then show ?thesis using Cancelled
    by (auto split: if_splits simp: logs_ok_def)
qed

lemma logs_ok_run: "logs_ok w \<Longrightarrow> run w es = Some w' \<Longrightarrow> logs_ok w'"
  by (induction es arbitrary: w) (auto split: option.splits dest: logs_ok_step)

lemma logs_ok_init: "logs_ok init"
  by (simp add: logs_ok_def init_def)

text \<open>
  Claim C7. In every state the supervisor reaches, whatever the events, the log snapshot
  holds at most 500 lines. Lines appended to the empty buffer are retained in the order
  of their insertion, the last 500 of them: after 501 appends the buffer is the second
  to the last line appended, so the first entry is gone (its text is absent unless a
  later line repeats it) and the line appended last is the last of the snapshot.
\<close>

theorem logs_bounded_fifo:
  "(run init es = Some w \<longrightarrow> length (api_logs w) \<le> 500)
   \<and> elems (foldl deque_append (logs init) ls) = drop (length ls - 500) ls
   \<and> (length ls = 501 \<longrightarrow>
        elems (foldl deque_append (logs init) ls) = tl ls
        \<and> last (elems (foldl deque_append (logs init) ls)) = last ls
        \<and> (hd ls \<notin> set (tl ls) \<longrightarrow> hd ls \<notin> set (elems (foldl deque_append (logs init) ls))))"
proof (intro conjI impI)
  assume "run init es = Some w"
  from logs_ok_run[OF logs_ok_init this] show "length (api_logs w) \<le> 500"
    by (simp add: logs_ok_def api_logs_def)
next
  show "elems (foldl deque_append (logs init) ls) = drop (length ls - 500) ls"
    by (rule elems_foldl_deque_append_init)
next
  assume l: "length ls = 501"
  then show t: "elems (foldl deque_append (logs init) ls) = tl ls"
    by (simp add: elems_foldl_deque_append_init drop_Suc)
  from l have "tl ls \<noteq> []" by (cases ls) auto
  then show "last (elems (foldl deque_append (logs init) ls)) = last ls"
    unfolding t by (simp add: last_tl)
  assume "hd ls \<notin> set (tl ls)"
  then show "hd ls \<notin> set (elems (foldl deque_append (logs init) ls))"
    unfolding t .
qed

theorem logs_bounded_fifo_witness:
  "(\<exists>w. run init [Call Start, SpawnRaises 0 ''no such file''] = Some w
        \<and> api_logs w = [''Failed to start gateway: no such file'']
        \<and> length (api_logs w) \<le> 500)
   \<and> length (''first'' # replicate 500 ''later'') = 501
   \<and> elems (foldl deque_append (logs init) (''first'' # replicate 500 ''later''))
        = replicate 500 ''later''
   \<and> ''first'' \<notin> set (elems (foldl deque_append (logs init) (''first'' # replicate 500 ''later'')))"
proof -
  let ?w = "\<lparr>process = None, state = ''error'',
      logs = \<lparr>elems = [''Failed to start gateway: no such file''], maxlen = 500\<rparr>,
      start_time = None, restart_count = 0, read_tasks = 0,
      children = [], returncodes = [], signals = [], tasks = [Finished]\<rparr>"
  let ?ls = "''first'' # replicate 500 ''later''"
  have r: "run init [Call Start, SpawnRaises 0 ''no such file''] = Some ?w"
    by (simp add: init_def start_call_def live_def new_task_def set_task_def task_at_def
        deque_append_def)
  have l: "length ?ls = 501" by simp
  have h: "hd ?ls \<notin> set (tl ?ls)" by simp
  note rule = logs_bounded_fifo[of "[Call Start, SpawnRaises 0 ''no such file'']" ?w ?ls]
  from rule[THEN conjunct1, rule_format, OF r]
  have 1: "length (api_logs ?w) \<le> 500" .
  note fifo = rule[THEN conjunct2, THEN conjunct2, rule_format, OF l]
  from fifo[THEN conjunct1]
  have 2: "elems (foldl deque_append (logs init) ?ls) = replicate 500 ''later''" by simp
  from fifo[THEN conjunct2, THEN conjunct2, rule_format, OF h]
  have 3: "''first'' \<notin> set (elems (foldl deque_append (logs init) ?ls))" by simp
  have "api_logs ?w = [''Failed to start gateway: no such file'']" by (simp add: api_logs_def)
  with r 1 l 2 3 show ?thesis by blast
qed

lemma restart_count_start_call: "restart_count (fst (start_call w)) = restart_count w"
  by (simp add: start_call_def)

lemma restart_count_start_resume: "restart_count (start_resume sp w) = restart_count w"
  by (cases sp) simp_all

lemma restart_count_start: "restart_count (start sp w) = restart_count w"
  by (simp add: start_def start_call_def restart_count_start_resume)

lemma restart_count_stop: "restart_count (stop sr w) = restart_count w"
  by (simp add: stop_def stop_call_def after_stop_def stop_finish_def stop_timeout_def
      child_exit_def split: option.splits stop_result.splits)

lemma not_live_stop: "\<not> live (stop sr w)"
  by (simp add: stop_def stop_call_def after_stop_def stop_finish_def stop_timeout_def
      child_exit_def live_def returncode_def split: option.splits stop_result.splits)

lemma state_start_not_live:
  "\<not> live w \<Longrightarrow>
   state (start sp w) = (case sp of Spawned pid now \<Rightarrow> ''running'' | SpawnError e \<Rightarrow> ''error'')"
  by (cases sp) (simp_all add: start_def start_call_def)

lemma live_restart_count_update [simp]:
  "live (w\<lparr>restart_count := n\<rparr>) = live w"
  by (simp add: live_def returncode_def split: option.splits)

lemma restart_count_restart: "restart_count (restart sr sp w) = restart_count w + 1"
  by (simp add: restart_def Let_def restart_count_start restart_count_stop)

lemma state_restart:
  "state (restart sr sp w) =
     (case sp of Spawned pid now \<Rightarrow> ''running'' | SpawnError e \<Rightarrow> ''error'')"
  unfolding restart_def Let_def
  by (rule state_start_not_live) (simp add: not_live_stop)

lemma restart_count_after_stop:
  "restart_count (fst (after_stop r w)) = (if r then restart_count w + 1 else restart_count w)"
  by (simp add: after_stop_def restart_count_start_call)

lemma restart_count_stop_call:
  "restart_count w \<le> restart_count (fst (stop_call r w))
   \<and> restart_count (fst (stop_call r w)) \<le> restart_count w + 1"
  by (simp add: stop_call_def restart_count_after_stop split: option.splits)

lemma restart_count_stop_finish:
  "restart_count w \<le> restart_count (fst (stop_finish r w))
   \<and> restart_count (fst (stop_finish r w)) \<le> restart_count w + 1"
  by (simp add: stop_finish_def restart_count_after_stop)

lemma restart_count_stop_timeout: "restart_count (fst (stop_timeout r w)) = restart_count w"
  by (simp add: stop_timeout_def split: option.splits)

lemma restart_count_read_exit: "restart_count (fst (read_exit w)) = restart_count w"
  by (simp add: read_exit_def split: option.splits)

lemma restart_count_read_loop: "restart_count (fst (read_loop w)) = restart_count w"
  by (simp add: read_loop_def restart_count_read_exit split: option.splits)

lemma restart_count_read_line: "restart_count (fst (read_line l w)) = restart_count w"
  by (simp add: read_line_def restart_count_read_loop)

lemma restart_count_set_task [simp]: "restart_count (set_task i r) = restart_count (fst r)"
  by (simp add: set_task_def)

lemma restart_count_new_task [simp]: "restart_count (new_task r) = restart_count (fst r)"
  by (simp add: new_task_def)

lemma restart_count_step:
  assumes "step w e = Some w'"
  shows "restart_count w \<le> restart_count w' \<and> restart_count w' \<le> restart_count w + 1"
proof (cases e)
  case (Call c)
  then show ?thesis using assms restart_count_stop_call[of w]
    by (cases c) (auto simp: restart_count_start_call)
next
  case (WaitReturns i)
  then show ?thesis using assms restart_count_stop_finish[of w]
    by (auto split: task.splits if_splits)
qed (use assms in \<open>auto split: task.splits if_splits simp: restart_count_start_resume
      restart_count_stop_timeout restart_count_read_loop restart_count_read_line
      restart_count_read_exit child_exit_def simp del: start_resume.simps\<close>)

lemma restart_count_run: "run w es = Some w' \<Longrightarrow> restart_count w \<le> restart_count w'"
proof (induction es arbitrary: w)
  case Nil
  then show ?case by simp
next
  case (Cons e es)
  then obtain w1 where s: "step w e = Some w1" and r: "run w1 es = Some w'"
    by (auto split: option.splits)
  from restart_count_step[OF s] Cons.IH[OF r] show ?case by simp
qed

lemmas piece_defs = start_call_def after_stop_def stop_call_def stop_timeout_def
  stop_finish_def child_exit_def new_task_def set_task_def task_at_def live_def returncode_def

lemma restart_as_task:
  assumes "handle_ok w"
  shows "map_option untasked (run w (restart_events w sr sp))
           = Some (untasked (restart sr sp w))"
proof (cases "process w")
  case None
  then show ?thesis
    by (cases sp)
       (simp_all add: restart_events_def stop_events_def spawn_event_def restart_def stop_def
          start_def untasked_def piece_defs)
next
  case (Some h)
  with assms have h: "h < length (children w)" by (simp add: handle_ok_def)
  show ?thesis
  proof (cases "map_of (returncodes w) h")
    case (Some rc)
    then show ?thesis using \<open>process w = Some h\<close>
      by (cases sp)
         (simp_all add: restart_events_def stop_events_def spawn_event_def restart_def stop_def
            start_def untasked_def piece_defs)
  next
    case None
    then show ?thesis using \<open>process w = Some h\<close> h
      by (cases sp; cases sr)
         (simp_all add: restart_events_def stop_events_def spawn_event_def restart_def stop_def
            start_def untasked_def piece_defs)
  qed
qed

lemma start_as_task:
  "map_option untasked (run w (start_events w sp)) = Some (untasked (start sp w))"
  by (cases sp)
     (simp_all add: start_events_def spawn_event_def start_def untasked_def piece_defs
        split: option.splits)

lemma stop_as_task:
  assumes "handle_ok w"
  shows "map_option untasked (run w (Call Stop # stop_events w sr))
           = Some (untasked (stop sr w))"
proof (cases "process w")
  case None
  then show ?thesis
    by (simp add: stop_events_def stop_def untasked_def piece_defs)
next
  case (Some h)
  with assms have h: "h < length (children w)" by (simp add: handle_ok_def)
  show ?thesis
  proof (cases "map_of (returncodes w) h")
    case (Some rc)
    then show ?thesis using \<open>process w = Some h\<close>
      by (simp add: stop_events_def stop_def untasked_def piece_defs)
  next
    case None
    then show ?thesis using \<open>process w = Some h\<close> h
      by (cases sr) (simp_all add: stop_events_def stop_def untasked_def piece_defs)
  qed
qed

text \<open>
  Claim C6. From every state of the supervisor, \<^verbatim>\<open>restart()\<close> is \<^verbatim>\<open>stop()\<close>, one increment of
  the restart counter, then \<^verbatim>\<open>start()\<close>: the counter is one more than before;
  \<^verbatim>\<open>stop()\<close> leaves no live process, so the \<^verbatim>\<open>start()\<close> that follows always attempts the
  spawn and the state ends as \<open>running\<close> or \<open>error\<close> by its result; \<^verbatim>\<open>start()\<close> and \<^verbatim>\<open>stop()\<close>
  leave the counter alone; the task of a \<^verbatim>\<open>restart()\<close> that nothing interrupts reaches
  exactly the state of this composition; and no event of the event loop, in any
  order, ever lowers the counter.
\<close>

theorem restart_increments_counter:
  "restart sr sp w = start sp ((stop sr w)\<lparr>restart_count := restart_count (stop sr w) + 1\<rparr>)
   \<and> restart_count (restart sr sp w) = restart_count w + 1
   \<and> \<not> live (stop sr w)
   \<and> state (restart sr sp w)
        = (case sp of Spawned pid now \<Rightarrow> ''running'' | SpawnError e \<Rightarrow> ''error'')
   \<and> restart_count (start sp w) = restart_count w
   \<and> restart_count (stop sr w) = restart_count w
   \<and> (handle_ok w \<longrightarrow>
        map_option untasked (run w (restart_events w sr sp))
          = Some (untasked (restart sr sp w)))
   \<and> (run w es = Some w' \<longrightarrow> restart_count w \<le> restart_count w')"
proof (intro conjI impI)
  show "restart sr sp w
      = start sp ((stop sr w)\<lparr>restart_count := restart_count (stop sr w) + 1\<rparr>)"
    by (simp only: restart_def Let_def)
qed (simp_all add: restart_count_restart not_live_stop state_restart restart_count_start
      restart_count_stop restart_count_run restart_as_task)

theorem restart_increments_counter_witness:
  "restart_count (restart (InTime 0) (Spawned 4711 10) init) = restart_count init + 1
   \<and> state (restart (InTime 0) (Spawned 4711 10) init) = ''running''
   \<and> restart_count (restart (Killed (-9)) (SpawnError ''no such file'')
        (start (SpawnError ''no such file'') init)) = 1
   \<and> run init [Call Restart, SpawnReturns 0 4711 10]
        = Some (init\<lparr>process := Some 0, state := ''running'', start_time := Some 10,
              restart_count := 1, read_tasks := 1, children := [4711],
              tasks := [Finished, Created]\<rparr>)
   \<and> restart_count init
        \<le> restart_count (init\<lparr>process := Some 0, state := ''running'', start_time := Some 10,
              restart_count := 1, read_tasks := 1, children := [4711],
              tasks := [Finished, Created]\<rparr>)"
proof -
  let ?w = "init\<lparr>process := Some 0, state := ''running'', start_time := Some 10,
      restart_count := 1, read_tasks := 1, children := [4711], tasks := [Finished, Created]\<rparr>"
  have r: "run init [Call Restart, SpawnReturns 0 4711 10] = Some ?w"
    by (simp add: init_def piece_defs)
  note rule = restart_increments_counter[of "InTime 0" "Spawned 4711 10" init
      "[Call Restart, SpawnReturns 0 4711 10]" ?w]
  note 1 = rule[THEN conjunct2, THEN conjunct1]
  from rule[THEN conjunct2, THEN conjunct2, THEN conjunct2, THEN conjunct1]
  have 2: "state (restart (InTime 0) (Spawned 4711 10) init) = ''running''" by simp
  from restart_increments_counter[of "Killed (-9)" "SpawnError ''no such file''"
      "start (SpawnError ''no such file'') init", THEN conjunct2, THEN conjunct1]
  have 3: "restart_count (restart (Killed (-9)) (SpawnError ''no such file'')
        (start (SpawnError ''no such file'') init)) = 1"
    by (simp add: restart_count_start init_def)
  note 4 = rule[THEN conjunct2, THEN conjunct2, THEN conjunct2, THEN conjunct2,
      THEN conjunct2, THEN conjunct2, THEN conjunct2, rule_format, OF r]
  from 1 2 3 r 4 show ?thesis by blast
qed

lemma elems_deque_append_last:
  "0 < maxlen d \<Longrightarrow> elems (deque_append d x) \<noteq> [] \<and> last (elems (deque_append d x)) = x"
  by (cases "elems d") (auto simp: deque_append_def Let_def)

lemma start_not_live: "\<not> live w \<Longrightarrow> start sp w = start_resume sp (w\<lparr>state := ''starting''\<rparr>)"
  by (simp add: start_def start_call_def)

lemma live_start_error: "live (start (SpawnError e) w) = live w"
  by (simp add: start_def start_call_def live_def returncode_def split: option.splits)

text \<open>
  Claim C8. When \<^verbatim>\<open>start()\<close> is called with no live child and the spawn raises an
  exception with message \<open>e\<close>: the state becomes \<open>error\<close>; the line
  \<open>Failed to start gateway: e\<close> is appended to the log buffer (and is its last line);
  \<^verbatim>\<open>get_status()\<close> reports state \<open>error\<close> and no pid; still no child is live, so a later
  \<^verbatim>\<open>start()\<close> whose spawn succeeds records the new process and ends in \<open>running\<close>, and a
  later \<^verbatim>\<open>restart()\<close> does the same and counts one restart. The two events of the
  failed call, run as a task, give the same state.
\<close>

theorem start_spawn_failure:
  assumes "\<not> live w"
  shows "state (start (SpawnError e) w) = ''error''
       \<and> logs (start (SpawnError e) w) = deque_append (logs w) (''Failed to start gateway: '' @ e)
       \<and> (0 < maxlen (logs w) \<longrightarrow>
            api_logs (start (SpawnError e) w) \<noteq> []
            \<and> last (api_logs (start (SpawnError e) w)) = ''Failed to start gateway: '' @ e)
       \<and> st_state (get_status now (start (SpawnError e) w)) = ''error''
       \<and> st_pid (get_status now (start (SpawnError e) w)) = None
       \<and> \<not> live (start (SpawnError e) w)
       \<and> state (start (Spawned pid t) (start (SpawnError e) w)) = ''running''
       \<and> process (start (Spawned pid t) (start (SpawnError e) w)) = Some (length (children w))
       \<and> state (restart sr (Spawned pid t) (start (SpawnError e) w)) = ''running''
       \<and> restart_count (restart sr sp (start (SpawnError e) w)) = restart_count w + 1
       \<and> run w [Call Start, SpawnRaises (length (tasks w)) e]
            = Some ((start (SpawnError e) w)\<lparr>tasks := tasks w @ [Finished]\<rparr>)"
proof -
  let ?w = "start (SpawnError e) w"
  have w: "?w = w\<lparr>state := ''error'',
      logs := deque_append (logs w) (''Failed to start gateway: '' @ e)\<rparr>"
    using assms by (simp add: start_def start_call_def)
  have nl: "\<not> live ?w" using assms by (simp add: live_start_error)
  have c: "children ?w = children w" by (simp add: w)
  show ?thesis
  proof (intro conjI impI)
    show "state ?w = ''error''" by (simp add: w)
    show "logs ?w = deque_append (logs w) (''Failed to start gateway: '' @ e)" by (simp add: w)
    show "st_state (get_status now ?w) = ''error''" by (simp add: get_status_def w)
    show "st_pid (get_status now ?w) = None"
      using assms
      by (auto simp: get_status_def w live_def returncode_def split: option.splits)
    show "\<not> live ?w" by (rule nl)
    show "state (start (Spawned pid t) ?w) = ''running''"
      using state_start_not_live[OF nl, of "Spawned pid t"] by simp
    show "process (start (Spawned pid t) ?w) = Some (length (children w))"
      unfolding start_not_live[OF nl] by (simp add: c)
    show "state (restart sr (Spawned pid t) ?w) = ''running''"
      by (simp add: state_restart)
    show "restart_count (restart sr sp ?w) = restart_count w + 1"
      by (simp add: restart_count_restart restart_count_start)
    show "run w [Call Start, SpawnRaises (length (tasks w)) e]
        = Some (?w\<lparr>tasks := tasks w @ [Finished]\<rparr>)"
      using assms by (simp add: w start_call_def new_task_def set_task_def task_at_def)
  next
    assume "0 < maxlen (logs w)"
    from elems_deque_append_last[OF this, of "''Failed to start gateway: '' @ e"]
    show "api_logs ?w \<noteq> []" and "last (api_logs ?w) = ''Failed to start gateway: '' @ e"
      by (simp_all add: api_logs_def w)
  qed
qed

theorem start_spawn_failure_witness:
  "\<not> live init
   \<and> state (start (SpawnError ''[Errno 2] No such file or directory'') init) = ''error''
   \<and> api_logs (start (SpawnError ''[Errno 2] No such file or directory'') init)
        = [''Failed to start gateway: [Errno 2] No such file or directory'']
   \<and> st_pid (get_status 20 (start (SpawnError ''[Errno 2] No such file or directory'') init))
        = None
   \<and> state (start (Spawned 4711 30)
        (start (SpawnError ''[Errno 2] No such file or directory'') init)) = ''running''"
proof -
  have nl: "\<not> live init" by (simp add: live_def init_def)
  note rule = start_spawn_failure[OF nl, of "''[Errno 2] No such file or directory''"
      20 4711 30 "InTime 0" "Spawned 4711 30"]
  note 1 = rule[THEN conjunct1]
  from rule[THEN conjunct2, THEN conjunct1]
  have 2: "api_logs (start (SpawnError ''[Errno 2] No such file or directory'') init)
        = [''Failed to start gateway: [Errno 2] No such file or directory'']"
    by (simp add: api_logs_def init_def deque_append_def)
  note 3 = rule[THEN conjunct2, THEN conjunct2, THEN conjunct2, THEN conjunct2, THEN conjunct1]
  note 4 = rule[THEN conjunct2, THEN conjunct2, THEN conjunct2, THEN conjunct2, THEN conjunct2,
      THEN conjunct2, THEN conjunct1]
  from nl 1 2 3 4 show ?thesis by blast
qed

lemma serial_inv_init: "serial_inv init"
  by (simp add: serial_inv_def init_def one_pending_def)

lemma one_pending_append:
  assumes "list_all (\<lambda>t. \<not> lifecycle t) ts"
  shows "one_pending (ts @ [t])"
  unfolding one_pending_def
proof (intro allI impI)
  fix i j
  assume a: "i < length (ts @ [t]) \<and> j < length (ts @ [t])
      \<and> lifecycle ((ts @ [t]) ! i) \<and> lifecycle ((ts @ [t]) ! j)"
  have "k < length (ts @ [t]) \<Longrightarrow> lifecycle ((ts @ [t]) ! k) \<Longrightarrow> k = length ts" for k
    using assms by (cases "k < length ts") (auto simp: nth_append list_all_length)
  with a show "i = j" by blast
qed

lemma one_pending_append_idle:
  "one_pending ts \<Longrightarrow> \<not> lifecycle t \<Longrightarrow> one_pending (ts @ [t])"
  unfolding one_pending_def
  by (auto simp: nth_append less_Suc_eq)

lemma one_pending_update:
  assumes "one_pending ts" and "i < length ts" and "lifecycle (ts ! i) \<or> \<not> lifecycle t"
  shows "one_pending (ts[i := t])"
  unfolding one_pending_def
proof (intro allI impI)
  fix a b
  assume h: "a < length (ts[i := t]) \<and> b < length (ts[i := t])
      \<and> lifecycle (ts[i := t] ! a) \<and> lifecycle (ts[i := t] ! b)"
  show "a = b"
  proof (cases "lifecycle (ts ! i)")
    case True
    have "k < length ts \<Longrightarrow> lifecycle (ts[i := t] ! k) \<Longrightarrow> k = i" for k
      using assms(1,2) True unfolding one_pending_def
      by (cases "k = i") (auto simp: nth_list_update)
    from this[of a] this[of b] h show ?thesis by simp
  next
    case False
    with assms(3) have nt: "\<not> lifecycle t" by simp
    have "k < length ts \<Longrightarrow> lifecycle (ts[i := t] ! k) \<Longrightarrow> lifecycle (ts ! k) \<and> k \<noteq> i" for k
      using nt by (cases "k = i") (auto simp: nth_list_update)
    from this[of a] this[of b] h assms(1) show ?thesis unfolding one_pending_def by simp
  qed
qed

lemma only_pending_update:
  assumes "one_pending ts" and "i < length ts" and "lifecycle (ts ! i)" and "\<not> lifecycle t"
  shows "list_all (\<lambda>t. \<not> lifecycle t) (ts[i := t])"
  unfolding list_all_length
proof (intro allI impI)
  fix k assume k: "k < length (ts[i := t])"
  show "\<not> lifecycle (ts[i := t] ! k)"
  proof (cases "k = i")
    case True
    with assms(2,4) show ?thesis by simp
  next
    case False
    with assms(1,2,3) k have "\<not> lifecycle (ts ! k)" unfolding one_pending_def by auto
    with False show ?thesis by simp
  qed
qed

lemma not_spawning: "list_all (\<lambda>t. \<not> lifecycle t) ts \<Longrightarrow> Spawning \<notin> set ts"
  by (auto simp: list_all_iff)

lemma not_live_all_exited:
  assumes "\<forall>h<length (children w). returncode w h = None \<longrightarrow> process w = Some h"
    and "\<not> live w"
  shows "all_exited w"
  unfolding all_exited_def
proof (intro allI impI)
  fix h assume h: "h < length (children w)"
  show "returncode w h \<noteq> None"
  proof
    assume n: "returncode w h = None"
    with assms(1) h have "process w = Some h" by simp
    with n assms(2) show False by (simp add: live_def)
  qed
qed

lemma inv_new_task:
  assumes inv: "serial_inv w" and q: "quiet w" and sc: "same_core w w1"
    and sp: "t = Spawning \<longrightarrow> \<not> live w"
  shows "serial_inv (new_task (w1, t))"
proof -
  let ?w = "new_task (w1, t)"
  have A: "\<forall>h<length (children w). returncode w h = None \<longrightarrow> process w = Some h"
    using inv by (simp add: serial_inv_def)
  have ts: "tasks ?w = tasks w @ [t]" using sc by (simp add: new_task_def same_core_def)
  have "Spawning \<notin> set (tasks w)" using q by (simp add: quiet_def not_spawning)
  then have C: "Spawning \<in> set (tasks ?w) \<longrightarrow> all_exited w"
    using sp not_live_all_exited[OF A] by (auto simp: ts)
  have B: "one_pending (tasks ?w)"
    unfolding ts using q by (intro one_pending_append) (simp add: quiet_def)
  show ?thesis
    unfolding serial_inv_def
    using A B C sc by (simp add: same_core_def new_task_def all_exited_def returncode_def)
qed

lemma set_update_spawning:
  "Spawning \<in> set (ts[i := t]) \<Longrightarrow> t = Spawning \<or> Spawning \<in> set ts"
  using set_update_subset_insert[of ts i t] by auto

lemma inv_set_task:
  assumes inv: "serial_inv w" and i: "i < length (tasks w)"
    and lc: "lifecycle (tasks w ! i) \<or> \<not> lifecycle t"
    and sc: "same_core w w1" and sp: "t = Spawning \<longrightarrow> \<not> live w"
  shows "serial_inv (set_task i (w1, t))"
proof -
  let ?w = "set_task i (w1, t)"
  have A: "\<forall>h<length (children w). returncode w h = None \<longrightarrow> process w = Some h"
    using inv by (simp add: serial_inv_def)
  have ts: "tasks ?w = (tasks w)[i := t]" using sc by (simp add: set_task_def same_core_def)
  have B: "one_pending (tasks ?w)"
    unfolding ts using inv i lc by (intro one_pending_update) (simp_all add: serial_inv_def)
  have C: "Spawning \<in> set (tasks ?w) \<longrightarrow> all_exited w"
  proof
    assume "Spawning \<in> set (tasks ?w)"
    then have "t = Spawning \<or> Spawning \<in> set (tasks w)"
      unfolding ts by (rule set_update_spawning)
    then show "all_exited w"
      using sp not_live_all_exited[OF A] inv by (auto simp: serial_inv_def)
  qed
  show ?thesis
    unfolding serial_inv_def
    using A B C sc by (simp add: same_core_def set_task_def all_exited_def returncode_def)
qed

lemma same_core_refl: "same_core w w"
  by (simp add: same_core_def)

lemma live_same_core: "same_core w w1 \<Longrightarrow> live w1 = live w"
  by (simp add: same_core_def live_def returncode_def split: option.splits)

lemma start_call_effect:
  "same_core w (fst (start_call w))
   \<and> (snd (start_call w) = Finished \<or> snd (start_call w) = Spawning \<and> \<not> live w)"
  by (simp add: start_call_def same_core_def)

lemma after_stop_effect:
  "same_core w (fst (after_stop r w))
   \<and> (snd (after_stop r w) = Finished \<or> snd (after_stop r w) = Spawning \<and> \<not> live w)"
proof (cases r)
  case True
  let ?w = "w\<lparr>restart_count := restart_count w + 1\<rparr>"
  have sc: "same_core w ?w" by (simp add: same_core_def)
  from start_call_effect[of ?w] live_same_core[OF sc] sc show ?thesis
    by (auto simp: after_stop_def True same_core_def)
next
  case False
  then show ?thesis by (simp add: after_stop_def same_core_def)
qed

lemma stop_finish_effect:
  "same_core w (fst (stop_finish r w))
   \<and> (snd (stop_finish r w) = Finished \<or> snd (stop_finish r w) = Spawning \<and> \<not> live w)"
proof -
  let ?w = "w\<lparr>state := ''stopped'', start_time := None\<rparr>"
  have sc: "same_core w ?w" by (simp add: same_core_def)
  from after_stop_effect[of ?w r] live_same_core[OF sc] sc show ?thesis
    by (auto simp: stop_finish_def same_core_def)
qed

lemma stop_call_effect:
  "same_core w (fst (stop_call r w))
   \<and> (snd (stop_call r w) = Finished \<or> snd (stop_call r w) = Spawning \<and> \<not> live w
        \<or> (\<exists>h. snd (stop_call r w) = Waiting h r))"
proof -
  let ?w = "w\<lparr>state := ''stopped''\<rparr>"
  have sc: "same_core w ?w" by (simp add: same_core_def)
  from after_stop_effect[of ?w r] live_same_core[OF sc] sc show ?thesis
    by (auto simp: stop_call_def same_core_def split: option.splits)
qed

lemma stop_timeout_effect:
  "same_core w (fst (stop_timeout r w))
   \<and> (snd (stop_timeout r w) = Finished \<or> (\<exists>h. snd (stop_timeout r w) = Killing h r))"
  by (simp add: stop_timeout_def same_core_def split: option.splits)

lemma read_exit_effect:
  "same_core w (fst (read_exit w)) \<and> snd (read_exit w) = Finished"
  by (simp add: read_exit_def same_core_def split: option.splits)

lemma read_loop_effect:
  "same_core w (fst (read_loop w)) \<and> \<not> lifecycle (snd (read_loop w))"
  using read_exit_effect[of w] by (simp add: read_loop_def same_core_def split: option.splits)

lemma read_line_effect:
  "same_core w (fst (read_line l w)) \<and> \<not> lifecycle (snd (read_line l w))"
proof -
  let ?w = "w\<lparr>logs := deque_append (logs w) l\<rparr>"
  from read_loop_effect[of ?w] show ?thesis
    by (simp add: read_line_def same_core_def)
qed

lemma task_atD: "task_at w i = t \<Longrightarrow> t \<noteq> Finished \<Longrightarrow> i < length (tasks w) \<and> tasks w ! i = t"
  by (auto simp: task_at_def split: if_splits)

lemma inv_call:
  assumes "serial_inv w" and "quiet w"
    and "same_core w (fst p)
         \<and> (snd p = Finished \<or> snd p = Spawning \<and> \<not> live w \<or> (\<exists>h r. snd p = Waiting h r))"
  shows "serial_inv (new_task p)"
proof -
  have "serial_inv (new_task (fst p, snd p))"
    using assms by (intro inv_new_task) auto
  then show ?thesis by simp
qed

lemma inv_resume:
  assumes "serial_inv w" and "i < length (tasks w)"
    and "lifecycle (tasks w ! i) \<or> \<not> lifecycle (snd p)"
    and "same_core w (fst p)" and "snd p = Spawning \<longrightarrow> \<not> live w"
  shows "serial_inv (set_task i p)"
proof -
  have "serial_inv (set_task i (fst p, snd p))"
    using assms by (intro inv_set_task) auto
  then show ?thesis by simp
qed

lemma inv_spawn_returns:
  assumes inv: "serial_inv w" and i: "i < length (tasks w)" and t: "tasks w ! i = Spawning"
  shows "serial_inv (set_task i (start_resume (Spawned pid now) w, Finished))"
proof -
  let ?w = "set_task i (start_resume (Spawned pid now) w, Finished)"
  have sp: "Spawning \<in> set (tasks w)" using i t by (metis nth_mem)
  with inv have ex: "all_exited w" by (simp add: serial_inv_def)
  have op: "one_pending (tasks w)" using inv by (simp add: serial_inv_def)
  have ts: "tasks ?w = (tasks w @ [Created])[i := Finished]" by (simp add: set_task_def)
  have op': "one_pending (tasks w @ [Created])"
    using op by (rule one_pending_append_idle) simp
  have lc: "lifecycle ((tasks w @ [Created]) ! i)" using i t by (simp add: nth_append)
  have idle: "list_all (\<lambda>t. \<not> lifecycle t) (tasks ?w)"
    unfolding ts using op' _ lc by (rule only_pending_update) (use i in simp_all)
  have B: "one_pending (tasks ?w)"
    unfolding ts using op' by (rule one_pending_update) (use i in simp_all)
  have C: "Spawning \<notin> set (tasks ?w)" using idle by (rule not_spawning)
  have A: "\<forall>h<length (children ?w). returncode ?w h = None \<longrightarrow> process ?w = Some h"
  proof (intro allI impI)
    fix h assume h: "h < length (children ?w)" and n: "returncode ?w h = None"
    have "returncode w h = None" using n by (simp add: set_task_def returncode_def)
    with ex have "\<not> h < length (children w)" by (auto simp: all_exited_def)
    with h have "h = length (children w)" by (simp add: set_task_def)
    then show "process ?w = Some h" by (simp add: set_task_def)
  qed
  from A B C show ?thesis unfolding serial_inv_def by blast
qed

lemma inv_exits:
  assumes inv: "serial_inv w"
  shows "serial_inv (child_exit h rc w)"
proof -
  let ?w = "child_exit h rc w"
  have rc: "returncode ?w k = None \<Longrightarrow> returncode w k = None" for k
    by (simp add: child_exit_def returncode_def split: if_splits)
  have "\<forall>k<length (children ?w). returncode ?w k = None \<longrightarrow> process ?w = Some k"
    using inv rc by (auto simp: serial_inv_def child_exit_def)
  moreover have "one_pending (tasks ?w)" using inv by (simp add: serial_inv_def child_exit_def)
  moreover have "Spawning \<in> set (tasks ?w) \<longrightarrow> all_exited ?w"
  proof
    assume "Spawning \<in> set (tasks ?w)"
    then have "all_exited w" using inv by (simp add: serial_inv_def child_exit_def)
    then have "k < length (children w) \<Longrightarrow> returncode w k \<noteq> None" for k
      by (simp add: all_exited_def)
    moreover have "children ?w = children w" by (simp add: child_exit_def)
    ultimately have "k < length (children ?w) \<Longrightarrow> returncode ?w k \<noteq> None" for k
      using rc[of k] by metis
    then show "all_exited ?w" unfolding all_exited_def by blast
  qed
  ultimately show ?thesis unfolding serial_inv_def by blast
qed

lemma serial_inv_step:
  assumes inv: "serial_inv w" and st: "serial_step w e = Some w'"
  shows "serial_inv w'"
proof (cases e)
  case (Call c)
  with st have q: "quiet w" and s: "step w (Call c) = Some w'"
    by (auto simp: serial_step_def split: if_splits)
  show ?thesis
  proof (cases c)
    case Start
    with s have "w' = new_task (start_call w)" by simp
    then show ?thesis using inv_call[OF inv q, of "start_call w"] start_call_effect[of w] by auto
  next
    case Stop
    with s have "w' = new_task (stop_call False w)" by simp
    then show ?thesis
      using inv_call[OF inv q, of "stop_call False w"] stop_call_effect[of w False] by auto
  next
    case Restart
    with s have "w' = new_task (stop_call True w)" by simp
    then show ?thesis
      using inv_call[OF inv q, of "stop_call True w"] stop_call_effect[of w True] by auto
  qed
next
  case (SpawnReturns i pid now)
  with st have ta: "task_at w i = Spawning"
    and w': "w' = set_task i (start_resume (Spawned pid now) w, Finished)"
    by (auto simp: serial_step_def split: task.splits)
  from task_atD[OF ta] show ?thesis unfolding w' by (intro inv_spawn_returns[OF inv]) simp_all
next
  case (SpawnRaises i m)
  with st have ta: "task_at w i = Spawning"
    and w': "w' = set_task i (start_resume (SpawnError m) w, Finished)"
    by (auto simp: serial_step_def split: task.splits)
  from task_atD[OF ta] show ?thesis
    unfolding w' by (intro inv_resume[OF inv]) (simp_all add: same_core_def)
next
  case (WaitReturns i)
  with st obtain h r where ta: "task_at w i = Waiting h r \<or> task_at w i = Killing h r"
    and w': "w' = set_task i (stop_finish r w)"
    by (auto simp: serial_step_def split: task.splits if_splits)
  from ta task_atD[of w i] have "i < length (tasks w)" "lifecycle (tasks w ! i)" by auto
  then show ?thesis
    unfolding w' using stop_finish_effect[of w r] by (intro inv_resume[OF inv]) auto
next
  case (WaitTimesOut i)
  with st obtain h r where ta: "task_at w i = Waiting h r"
    and w': "w' = set_task i (stop_timeout r w)"
    by (auto simp: serial_step_def split: task.splits)
  from task_atD[OF ta] have "i < length (tasks w)" "lifecycle (tasks w ! i)" by auto
  then show ?thesis
    unfolding w' using stop_timeout_effect[of w r] by (intro inv_resume[OF inv]) auto
next
  case (Runs i)
  with st have ta: "task_at w i = Created" and w': "w' = set_task i (read_loop w)"
    by (auto simp: serial_step_def split: task.splits)
  from task_atD[OF ta] have "i < length (tasks w)" by auto
  then show ?thesis
    unfolding w' using read_loop_effect[of w] by (intro inv_resume[OF inv]) auto
next
  case (ReadsLine i l)
  with st obtain h where ta: "task_at w i = Reading h" and w': "w' = set_task i (read_line l w)"
    by (auto simp: serial_step_def split: task.splits)
  from task_atD[OF ta] have "i < length (tasks w)" by auto
  then show ?thesis
    unfolding w' using read_line_effect[of w l] by (intro inv_resume[OF inv]) auto
next
  case (ReadsEof i)
  with st obtain h where ta: "task_at w i = Reading h" and w': "w' = set_task i (read_exit w)"
    by (auto simp: serial_step_def split: task.splits)
  from task_atD[OF ta] have "i < length (tasks w)" by auto
  then show ?thesis
    unfolding w' using read_exit_effect[of w] by (intro inv_resume[OF inv]) auto
next
  case (Exits h rc)
  with st have "w' = child_exit h rc w" by (auto simp: serial_step_def split: if_splits)
  then show ?thesis using inv_exits[OF inv] by simp
next
  case (Cancelled i)
  with st have i: "i < length (tasks w)" and w': "w' = set_task i (w, Finished)"
    by (auto simp: serial_step_def set_task_def split: if_splits)
  show ?thesis unfolding w' using i by (intro inv_resume[OF inv]) (simp_all add: same_core_refl)
qed

lemma serial_inv_run: "serial_inv w \<Longrightarrow> serial_run w es = Some w' \<Longrightarrow> serial_inv w'"
proof (induction es arbitrary: w)
  case Nil
  then show ?case by simp
next
  case (Cons e es)
  then obtain w1 where s: "serial_step w e = Some w1" and r: "serial_run w1 es = Some w'"
    by (auto split: option.splits)
  from Cons.IH[OF serial_inv_step[OF Cons.prems(1) s] r] show ?case .
qed

lemma serial_run_run: "serial_run w es = Some w' \<Longrightarrow> run w es = Some w'"
  by (induction es arbitrary: w) (auto simp: serial_step_def split: option.splits if_splits)

lemma length_le_one:
  assumes "distinct xs" and "\<forall>x\<in>set xs. x = a"
  shows "length xs \<le> 1"
proof (cases xs)
  case (Cons x ys)
  with assms have "ys = []" by (cases ys) auto
  with Cons show ?thesis by simp
qed simp

lemma serial_run_single_child:
  assumes "serial_run init es = Some w"
  shows "length (live_children w) \<le> 1
       \<and> (\<forall>h. h \<in> set (live_children w) \<longrightarrow> process w = Some h)
       \<and> run init es = Some w"
proof -
  have inv: "serial_inv w" by (rule serial_inv_run[OF serial_inv_init assms])
  have rec: "process w = Some h" if "h \<in> set (live_children w)" for h
    using that inv by (auto simp: live_children_def serial_inv_def)
  have "length (live_children w) \<le> 1"
  proof (cases "live_children w")
    case (Cons x ys)
    have "\<forall>y\<in>set (live_children w). y = x"
    proof
      fix y assume "y \<in> set (live_children w)"
      from rec[OF this] rec[of x] Cons show "y = x" by simp
    qed
    moreover have "distinct (live_children w)" by (simp add: live_children_def)
    ultimately show ?thesis by (rule length_le_one[rotated])
  qed simp
  with rec serial_run_run[OF assms] show ?thesis by blast
qed

lemma start_live: "live v \<Longrightarrow> start sp v = v"
  by (simp add: start_def start_call_def)

lemma stop_not_live: "\<not> live v \<Longrightarrow> signals (stop sr v) = signals v"
  by (auto simp: stop_def stop_call_def after_stop_def live_def split: option.splits)

text \<open>
  Claim C9, as amended. The supervisor holds no lock: a call runs alone only from one
  await to the next and tests its guard when it begins. \<^verbatim>\<open>start()\<close> called while the
  recorded process is live changes nothing, and \<^verbatim>\<open>stop()\<close> called while none is live
  sends no signal. When the callers let no call begin while a call of \<^verbatim>\<open>start()\<close>,
  \<^verbatim>\<open>stop()\<close> or \<^verbatim>\<open>restart()\<close> is suspended, then in every state reached, whatever the
  children, the drain tasks and cancellations do, at most one child is live, and it
  is the recorded process.
\<close>

theorem serial_calls_single_child:
  assumes "serial_run init es = Some w"
  shows "run init es = Some w
       \<and> length (live_children w) \<le> 1
       \<and> (\<forall>h. h \<in> set (live_children w) \<longrightarrow> process w = Some h)
       \<and> (live v \<longrightarrow> start sp v = v)
       \<and> (\<not> live v \<longrightarrow> signals (stop sr v) = signals v)"
  using serial_run_single_child[OF assms] by (simp add: start_live stop_not_live)

lemmas run_defs = init_def start_call_def after_stop_def stop_call_def stop_timeout_def
  stop_finish_def child_exit_def new_task_def set_task_def task_at_def live_def returncode_def

theorem serial_calls_single_child_witness:
  "serial_run init [Call Start, SpawnReturns 0 4711 10, Call Start, Call Restart,
      Exits 0 0, WaitReturns 3, SpawnReturns 3 4712 12]
     = Some (init\<lparr>process := Some 1, state := ''running'', start_time := Some 12,
          restart_count := 1, read_tasks := 2, children := [4711, 4712],
          returncodes := [(0, 0)], signals := [(0, SIGTERM)],
          tasks := [Finished, Created, Finished, Finished, Created]\<rparr>)
   \<and> live_children (init\<lparr>process := Some 1, state := ''running'', start_time := Some 12,
          restart_count := 1, read_tasks := 2, children := [4711, 4712],
          returncodes := [(0, 0)], signals := [(0, SIGTERM)],
          tasks := [Finished, Created, Finished, Finished, Created]\<rparr>) = [1]
   \<and> length (live_children (init\<lparr>process := Some 1, state := ''running'',
          start_time := Some 12, restart_count := 1, read_tasks := 2,
          children := [4711, 4712], returncodes := [(0, 0)], signals := [(0, SIGTERM)],
          tasks := [Finished, Created, Finished, Finished, Created]\<rparr>)) \<le> 1"
proof -
  let ?es = "[Call Start, SpawnReturns 0 4711 10, Call Start, Call Restart,
      Exits 0 0, WaitReturns 3, SpawnReturns 3 4712 12]"
  let ?w = "init\<lparr>process := Some 1, state := ''running'', start_time := Some 12,
      restart_count := 1, read_tasks := 2, children := [4711, 4712],
      returncodes := [(0, 0)], signals := [(0, SIGTERM)],
      tasks := [Finished, Created, Finished, Finished, Created]\<rparr>"
  have r: "serial_run init ?es = Some ?w"
    by (simp add: serial_step_def quiet_def run_defs)
  have l: "live_children ?w = [1]"
    by (simp add: live_children_def returncode_def init_def upt_rec)
  from serial_calls_single_child[OF r, THEN conjunct2, THEN conjunct1] r l
  show ?thesis by blast
qed

text \<open>
  Claim C9 as stated fails: two calls of \<^verbatim>\<open>start()\<close> that both begin before either spawn
  returns pass the guard and leave two live children, of which the supervisor records
  the second only; two calls of \<^verbatim>\<open>stop()\<close> that overlap both send SIGTERM to the same
  process and, after their timeouts, both send SIGKILL.
\<close>

theorem unserialized_calls_counterexample:
  "run init [Call Start, Call Start, SpawnReturns 0 4711 10, SpawnReturns 1 4712 11]
     = Some (init\<lparr>process := Some 1, state := ''running'', start_time := Some 11,
          read_tasks := 2, children := [4711, 4712],
          tasks := [Finished, Finished, Created, Created]\<rparr>)
   \<and> live_children (init\<lparr>process := Some 1, state := ''running'', start_time := Some 11,
          read_tasks := 2, children := [4711, 4712],
          tasks := [Finished, Finished, Created, Created]\<rparr>) = [0, 1]
   \<and> run init [Call Start, SpawnReturns 0 4711 10, Call Stop, Call Stop,
          WaitTimesOut 2, WaitTimesOut 3]
     = Some (init\<lparr>process := Some 0, state := ''stopping'', start_time := Some 10,
          read_tasks := 1, children := [4711],
          signals := [(0, SIGTERM), (0, SIGTERM), (0, SIGKILL), (0, SIGKILL)],
          tasks := [Finished, Created, Killing 0 False, Killing 0 False]\<rparr>)"
  by (simp add: run_defs live_children_def upt_rec)

end
